theory Spec2Isabelle
  imports Main "HOL-Library.Word"
begin

unbundle bit_operations_syntax

section \<open>Data model of InvocationResponse.hpp\<close>

type_synonym byte = "8 word"

text \<open>
  The enum \<open>StatusCode\<close> of InvocationResponse.hpp, with the numeric value the
  declaration gives each enumerator.
\<close>

datatype StatusCode =
    STATUS_CODE_SUCCESS
  | STATUS_CODE_USER_ABORT
  | STATUS_CODE_GRACEFUL_FAILURE
  | STATUS_CODE_UNEXPECTED_FAILURE
  | STATUS_CODE_CONNECTION_LOST

fun StatusCode_value :: "StatusCode \<Rightarrow> int" where
  "StatusCode_value STATUS_CODE_SUCCESS = 1"
| "StatusCode_value STATUS_CODE_USER_ABORT = -1"
| "StatusCode_value STATUS_CODE_GRACEFUL_FAILURE = -2"
| "StatusCode_value STATUS_CODE_UNEXPECTED_FAILURE = -3"
| "StatusCode_value STATUS_CODE_CONNECTION_LOST = -4"

text \<open>
  Modelled from the spec: ByteBuffer.hpp is not among the sources. A buffer holds a byte
  region, a position cursor and a limit (spec 4.1); the capacity is the size of the region
  the buffer was created over. Position, limit and capacity are \<open>int32_t\<close> values that
  the checked setters below keep within \<open>0 .. capacity\<close>, so they are naturals here;
  every length that comes from the wire stays a signed integer.
\<close>

record ByteBuffer =
  m_buffer :: "byte list"
  m_position :: nat
  m_limit :: nat
  m_capacity :: nat

text \<open>
  Modelled from the spec: Table.h is not among the sources. The core treats the
  tabular-result container as an opaque slice of bytes (spec 1); a table built from a
  buffer slice is that slice.
\<close>

datatype Table = Table ByteBuffer

record InvocationResponse =
  m_clientData :: "64 word"
  m_statusCode :: "8 word"
  m_statusString :: string
  m_appStatusCode :: "8 word"
  m_appStatusString :: string
  m_clusterRoundTripTime :: "32 word"
  m_results :: "Table list"

subsection \<open>Default constructor\<close>

text \<open>\<open>INT8_MIN\<close> of \<open>stdint.h\<close>.\<close>

definition INT8_MIN :: int where
  "INT8_MIN = - 128"

definition InvocationResponse_default :: InvocationResponse where
  "InvocationResponse_default =
     \<lparr> m_clientData = 0,
       m_statusCode = word_of_int (StatusCode_value STATUS_CODE_CONNECTION_LOST),
       m_statusString = ''Connection to the database was lost'',
       m_appStatusCode = word_of_int INT8_MIN,
       m_appStatusString = '''',
       m_clusterRoundTripTime = 0,
       m_results = [] \<rparr>"

subsection \<open>Accessors\<close>

definition clientData :: "InvocationResponse \<Rightarrow> 64 word" where
  "clientData r = m_clientData r"

definition statusCode :: "InvocationResponse \<Rightarrow> 8 word" where
  "statusCode r = m_statusCode r"

text \<open>
  The comparison promotes the \<open>int8_t\<close> field to \<open>int\<close>, which is its signed value.
\<close>

definition success :: "InvocationResponse \<Rightarrow> bool" where
  "success r = (sint (m_statusCode r) = StatusCode_value STATUS_CODE_SUCCESS)"

definition failure :: "InvocationResponse \<Rightarrow> bool" where
  "failure r = (sint (m_statusCode r) \<noteq> StatusCode_value STATUS_CODE_SUCCESS)"

definition statusString :: "InvocationResponse \<Rightarrow> string" where
  "statusString r = m_statusString r"

definition appStatusCode :: "InvocationResponse \<Rightarrow> 8 word" where
  "appStatusCode r = m_appStatusCode r"

definition appStatusString :: "InvocationResponse \<Rightarrow> string" where
  "appStatusString r = m_appStatusString r"

definition clusterRoundTripTime :: "InvocationResponse \<Rightarrow> 32 word" where
  "clusterRoundTripTime r = m_clusterRoundTripTime r"

definition results :: "InvocationResponse \<Rightarrow> Table list" where
  "results r = m_results r"

text \<open>Decimal output of the stream inserters for integers.\<close>

definition digit_char :: "nat \<Rightarrow> char" where
  "digit_char k = char_of (of_char CHR ''0'' + k)"

fun string_of_nat :: "nat \<Rightarrow> string" where
  "string_of_nat n =
     (if 10 \<le> n then string_of_nat (n div 10) @ [digit_char (n mod 10)]
      else [digit_char n])"

definition string_of_int :: "int \<Rightarrow> string" where
  "string_of_int i =
     (if i < 0 then CHR ''-'' # string_of_nat (nat (- i)) else string_of_nat (nat i))"

definition endl :: string where
  "endl = [CHR 0x0A]"

subsection \<open>Calls of the accessors on a response object\<close>

text \<open>
  A member function runs on the object it is called on: it gives the value it returns
  and the object after the call.
\<close>

type_synonym 'a member_function = "InvocationResponse \<Rightarrow> 'a \<times> InvocationResponse"

text \<open>The statement \<open>return v\<close>.\<close>

definition return_value :: "'a \<Rightarrow> 'a member_function" where
  "return_value v this = (v, this)"

text \<open>Reading a data member of the object, or an expression over its data members.\<close>

definition read_member ::
    "(InvocationResponse \<Rightarrow> 'a) \<Rightarrow> 'a member_function" where
  "read_member field this = (field this, this)"

text \<open>Sequencing: the second computation runs on the object the first one leaves.\<close>

definition then_do ::
    "'a member_function \<Rightarrow> ('a \<Rightarrow> 'b member_function) \<Rightarrow> 'b member_function" where
  "then_do m f this = (case m this of (v, this') \<Rightarrow> f v this')"

text \<open>
  A call \<open>m_results[ii].f(...)\<close> of a member function of \<open>Table\<close> on an element of the
  result vector. The element is passed by reference, so what the function leaves of the
  table is what the vector holds after the call.
\<close>

definition call_on_result ::
    "nat \<Rightarrow> (Table \<Rightarrow> 'a \<times> Table) \<Rightarrow> 'a member_function" where
  "call_on_result ii f this =
     (case f (m_results this ! ii) of
        (v, t') \<Rightarrow> (v, this\<lparr> m_results := (m_results this)[ii := t'] \<rparr>))"

text \<open>The bodies of the accessors, as the statements the source has.\<close>

definition clientData_call :: "64 word member_function" where
  "clientData_call = then_do (read_member m_clientData) return_value"

definition statusCode_call :: "8 word member_function" where
  "statusCode_call = then_do (read_member m_statusCode) return_value"

definition success_call :: "bool member_function" where
  "success_call =
     then_do (read_member m_statusCode)
       (\<lambda>c. return_value (sint c = StatusCode_value STATUS_CODE_SUCCESS))"

definition failure_call :: "bool member_function" where
  "failure_call =
     then_do (read_member m_statusCode)
       (\<lambda>c. return_value (sint c \<noteq> StatusCode_value STATUS_CODE_SUCCESS))"

definition statusString_call :: "string member_function" where
  "statusString_call = then_do (read_member m_statusString) return_value"

definition appStatusCode_call :: "8 word member_function" where
  "appStatusCode_call = then_do (read_member m_appStatusCode) return_value"

definition appStatusString_call :: "string member_function" where
  "appStatusString_call = then_do (read_member m_appStatusString) return_value"

definition clusterRoundTripTime_call :: "32 word member_function" where
  "clusterRoundTripTime_call = then_do (read_member m_clusterRoundTripTime) return_value"

definition results_call :: "Table list member_function" where
  "results_call = then_do (read_member m_results) return_value"

text \<open>
  The loop of \<open>toString\<close> over the result tables, from index \<open>ii\<close> on; \<open>os\<close> is what the
  local \<open>ostringstream\<close> holds. \<open>Table::toString(ostream, indent)\<close> is declared in
  Table.h, which is not among the sources: it is the parameter \<open>table_toString\<close>, which
  gives for a table, the content of the stream and the indent the content of the stream
  after the call and the table after the call. Nothing is assumed of it here, so the
  model lets it change the table it is called on. The loop tests \<open>ii\<close> against the size
  of the vector before every round, as the source does.
\<close>

function toString_loop ::
    "(Table \<Rightarrow> string \<Rightarrow> string \<Rightarrow> string \<times> Table) \<Rightarrow> nat \<Rightarrow> string
      \<Rightarrow> string member_function" where
  "toString_loop table_toString ii os this =
     (if ii < length (m_results this)
      then (case call_on_result ii
                   (\<lambda>t. table_toString t (os @ ''Result Table '' @ string_of_nat ii @ endl)
                          ''    '') this of
              (os', this') \<Rightarrow> toString_loop table_toString (Suc ii) os' this')
      else (os, this))"
  by pat_completeness auto

termination
proof (relation "measure (\<lambda>(table_toString, ii, os, this). length (m_results this) - ii)")
  show "wf (measure (\<lambda>(table_toString, ii, os, this). length (m_results this) - ii))"
    by simp
next
  fix table_toString :: "Table \<Rightarrow> string \<Rightarrow> string \<Rightarrow> string \<times> Table"
    and ii :: nat and os :: string and this :: InvocationResponse and x :: string
    and y :: InvocationResponse
  let ?f = "\<lambda>t. table_toString t (os @ ''Result Table '' @ string_of_nat ii @ endl) ''    ''"
  assume inb: "ii < length (m_results this)"
    and c: "(x, y) = call_on_result ii ?f this"
  have "length (m_results (snd (call_on_result ii ?f this))) = length (m_results this)"
    by (cases "?f (m_results this ! ii)") (simp add: call_on_result_def)
  with c [symmetric] have "length (m_results y) = length (m_results this)"
    by (simp only: snd_conv)
  with inb
  show "((table_toString, Suc ii, x, y), (table_toString, ii, os, this))
        \<in> measure (\<lambda>(table_toString, ii, os, this). length (m_results this) - ii)"
    by simp
qed

declare toString_loop.simps [simp del]

definition toString_call ::
    "(Table \<Rightarrow> string \<Rightarrow> string \<Rightarrow> string \<times> Table) \<Rightarrow> string member_function" where
  "toString_call table_toString =
     then_do statusCode_call (\<lambda>sc.
     then_do statusString_call (\<lambda>ss.
     then_do appStatusCode_call (\<lambda>asc.
     then_do appStatusString_call (\<lambda>ass.
     then_do clientData_call (\<lambda>cd.
     then_do clusterRoundTripTime_call (\<lambda>rtt.
     toString_loop table_toString 0
       (''Status: '' @ string_of_int (sint sc) @ '', '' @ ss @ endl
        @ ''App Status: '' @ string_of_int (sint asc) @ '', '' @ ass @ endl
        @ ''Client Data: '' @ string_of_int (sint cd) @ endl
        @ ''Cluster Round Trip Time: '' @ string_of_int (sint rtt) @ endl)))))))"

text \<open>
  A call of a public accessor on a response object: the value it returns, and the object
  after the call.
\<close>

datatype accessor =
    Call_clientData
  | Call_statusCode
  | Call_success
  | Call_failure
  | Call_statusString
  | Call_appStatusCode
  | Call_appStatusString
  | Call_clusterRoundTripTime
  | Call_results
  | Call_toString

datatype returned =
    Ret_int64 "64 word"
  | Ret_int8 "8 word"
  | Ret_bool bool
  | Ret_string string
  | Ret_int32 "32 word"
  | Ret_tables "Table list"

fun call ::
    "(Table \<Rightarrow> string \<Rightarrow> string \<Rightarrow> string \<times> Table) \<Rightarrow> accessor
      \<Rightarrow> returned member_function" where
  "call tts Call_clientData = then_do clientData_call (\<lambda>v. return_value (Ret_int64 v))"
| "call tts Call_statusCode = then_do statusCode_call (\<lambda>v. return_value (Ret_int8 v))"
| "call tts Call_success = then_do success_call (\<lambda>v. return_value (Ret_bool v))"
| "call tts Call_failure = then_do failure_call (\<lambda>v. return_value (Ret_bool v))"
| "call tts Call_statusString = then_do statusString_call (\<lambda>v. return_value (Ret_string v))"
| "call tts Call_appStatusCode = then_do appStatusCode_call (\<lambda>v. return_value (Ret_int8 v))"
| "call tts Call_appStatusString =
     then_do appStatusString_call (\<lambda>v. return_value (Ret_string v))"
| "call tts Call_clusterRoundTripTime =
     then_do clusterRoundTripTime_call (\<lambda>v. return_value (Ret_int32 v))"
| "call tts Call_results = then_do results_call (\<lambda>v. return_value (Ret_tables v))"
| "call tts Call_toString = then_do (toString_call tts) (\<lambda>v. return_value (Ret_string v))"

section \<open>The byte buffer codec\<close>

text \<open>
  Every exception and failed assertion of the parsing code is a value: \<open>Overrun\<close> when
  a read would cross the limit, \<open>IndexOutOfBounds\<close> when a position or limit is set
  outside the buffer, \<open>AssertionFailed\<close> for a failed \<open>assert\<close>, \<open>LengthError\<close> when
  \<open>std::vector::resize\<close> is asked for more than \<open>max_size()\<close> elements,
  \<open>SignedOverflow\<close> when an \<open>int32_t\<close> addition leaves the range of the type,
  \<open>InvalidRegion\<close> when the length handed to the buffer is not a length of the array,
  \<open>StreamFailure\<close> when an input stream ends before the bytes asked for,
  \<open>NoConnections\<close> when the event loop is entered without a usable connection.
\<close>

datatype error =
    Overrun
  | IndexOutOfBounds
  | AssertionFailed
  | LengthError
  | SignedOverflow
  | InvalidRegion
  | StreamFailure
  | NoConnections

definition and_then :: "error + 'a \<Rightarrow> ('a \<Rightarrow> error + 'b) \<Rightarrow> error + 'b" where
  "and_then m f = (case m of Inl e \<Rightarrow> Inl e | Inr x \<Rightarrow> f x)"

text \<open>Network order (big-endian): the first byte is the most significant one.\<close>

definition word_of_be :: "byte list \<Rightarrow> 'a::len word" where
  "word_of_be bs = foldl (\<lambda>acc b. push_bit 8 acc OR ucast b) 0 bs"

fun be_of_word :: "nat \<Rightarrow> 'a::len word \<Rightarrow> byte list" where
  "be_of_word 0 w = []"
| "be_of_word (Suc n) w = ucast (drop_bit (8 * n) w) # be_of_word n w"

text \<open>The characters of a \<open>std::string\<close> are bytes.\<close>

definition char_of_byte :: "byte \<Rightarrow> char" where
  "char_of_byte b = char_of (unat b)"

definition byte_of_char :: "char \<Rightarrow> byte" where
  "byte_of_char c = word_of_nat (of_char c)"

text \<open>
  Modelled from the spec: the constructor of \<open>SharedByteBuffer\<close> (ByteBuffer.hpp is not
  among the sources). It is handed an array and the number of bytes of it that hold the
  message; the buffer starts at position 0 with that number as limit and capacity. A
  length that is negative or larger than the array is \<open>InvalidRegion\<close> here.
\<close>

definition SharedByteBuffer_of :: "byte list \<Rightarrow> int \<Rightarrow> error + ByteBuffer" where
  "SharedByteBuffer_of data len =
     (if len < 0 \<or> int (length data) < len then Inl InvalidRegion
      else Inr \<lparr> m_buffer = data, m_position = 0, m_limit = nat len, m_capacity = nat len \<rparr>)"

text \<open>
  Modelled from the spec: the bounds check of every read of ByteBuffer.hpp (not among the
  sources). A read of \<open>len\<close> bytes advances the position and fails with \<open>Overrun\<close> if it
  would cross the limit (spec 4.1); it gives the position the read starts at.
\<close>

definition checkGetPutIndex :: "int \<Rightarrow> ByteBuffer \<Rightarrow> error + (nat \<times> ByteBuffer)" where
  "checkGetPutIndex len b =
     (if int (m_limit b) - int (m_position b) < len \<or> len < 0 then Inl Overrun
      else Inr (m_position b, b\<lparr>m_position := m_position b + nat len\<rparr>))"

text \<open>
  Modelled from the spec: a read of \<open>len\<close> raw bytes from ByteBuffer.hpp (not among the
  sources), as for varbinary and string contents (spec 4.1).
\<close>

definition getBytes :: "int \<Rightarrow> ByteBuffer \<Rightarrow> error + (byte list \<times> ByteBuffer)" where
  "getBytes len b =
     and_then (checkGetPutIndex len b)
       (\<lambda>(p, b'). Inr (take (nat len) (drop p (m_buffer b)), b'))"

text \<open>
  Modelled from the spec: \<open>getInt8\<close> of ByteBuffer.hpp (not among the sources), one byte.
\<close>

definition getInt8 :: "ByteBuffer \<Rightarrow> error + (8 word \<times> ByteBuffer)" where
  "getInt8 b = and_then (getBytes 1 b) (\<lambda>(bs, b'). Inr (word_of_be bs, b'))"

text \<open>
  Modelled from the spec: \<open>getInt16\<close> of ByteBuffer.hpp (not among the sources), two
  bytes in network order (spec 4.1).
\<close>

definition getInt16 :: "ByteBuffer \<Rightarrow> error + (16 word \<times> ByteBuffer)" where
  "getInt16 b = and_then (getBytes 2 b) (\<lambda>(bs, b'). Inr (word_of_be bs, b'))"

text \<open>
  Modelled from the spec: \<open>getInt32\<close> of ByteBuffer.hpp (not among the sources), four
  bytes in network order (spec 4.1).
\<close>

definition getInt32 :: "ByteBuffer \<Rightarrow> error + (32 word \<times> ByteBuffer)" where
  "getInt32 b = and_then (getBytes 4 b) (\<lambda>(bs, b'). Inr (word_of_be bs, b'))"

text \<open>
  Modelled from the spec: \<open>getInt64\<close> of ByteBuffer.hpp (not among the sources), eight
  bytes in network order (spec 4.1).
\<close>

definition getInt64 :: "ByteBuffer \<Rightarrow> error + (64 word \<times> ByteBuffer)" where
  "getInt64 b = and_then (getBytes 8 b) (\<lambda>(bs, b'). Inr (word_of_be bs, b'))"

text \<open>
  Modelled from the spec: \<open>getString(bool &wasNull)\<close> of ByteBuffer.hpp (not among the
  sources). A string is a 4-byte signed length, -1 for null, followed by that many bytes
  (spec 4.1); a null string is returned as the empty string. The flag is an in-out
  parameter: the constructor below sets it to false once, passes it to both calls and
  asserts it once after them, so a call that reads a non-null string leaves the flag as
  it found it.
\<close>

definition getString :: "bool \<Rightarrow> ByteBuffer \<Rightarrow> error + ((string \<times> bool) \<times> ByteBuffer)" where
  "getString wasNull b =
     and_then (getInt32 b)
       (\<lambda>(len, b1).
          if sint len = - 1 then Inr (('''', True), b1)
          else and_then (getBytes (sint len) b1)
                 (\<lambda>(bs, b2). Inr ((map char_of_byte bs, wasNull), b2)))"

text \<open>
  Modelled from the spec: the setter \<open>position(int32_t)\<close> of ByteBuffer.hpp (not among
  the sources). The position stays within \<open>0 .. limit\<close> (spec 4.1).
\<close>

definition position_set :: "int \<Rightarrow> ByteBuffer \<Rightarrow> error + ByteBuffer" where
  "position_set p b =
     (if p < 0 \<or> int (m_limit b) < p then Inl IndexOutOfBounds
      else Inr (b\<lparr>m_position := nat p\<rparr>))"

text \<open>
  Modelled from the spec: the setter \<open>limit(int32_t)\<close> of ByteBuffer.hpp (not among the
  sources). The limit stays within the byte region, \<open>0 .. capacity\<close> (spec 4.1).
\<close>

definition limit_set :: "int \<Rightarrow> ByteBuffer \<Rightarrow> error + ByteBuffer" where
  "limit_set l b =
     (if l < 0 \<or> int (m_capacity b) < l then Inl IndexOutOfBounds
      else Inr (b\<lparr>m_limit := nat l\<rparr>))"

text \<open>
  Modelled from the spec: \<open>slice()\<close> of ByteBuffer.hpp (not among the sources). It yields
  the view from the position to the limit (spec 4.1) and consumes it: the codec consumes
  a table via a slice of exactly \<open>tableLength\<close> bytes (spec 4.2), so the position of the
  sliced buffer moves to its limit. The view is given as a buffer of its own over the
  bytes it shares.
\<close>

definition slice :: "ByteBuffer \<Rightarrow> ByteBuffer \<times> ByteBuffer" where
  "slice b =
     (\<lparr> m_buffer = take (m_limit b - m_position b) (drop (m_position b) (m_buffer b)),
        m_position = 0,
        m_limit = m_limit b - m_position b,
        m_capacity = m_limit b - m_position b \<rparr>,
      b\<lparr>m_position := m_limit b\<rparr>)"

text \<open>Addition of two \<open>int32_t\<close> values; leaving the range of the type is undefined in C++.\<close>

definition add_int32 :: "int \<Rightarrow> int \<Rightarrow> error + int" where
  "add_int32 a b =
     (if - (2 ^ 31) \<le> a + b \<and> a + b < 2 ^ 31 then Inr (a + b) else Inl SignedOverflow)"

section \<open>The parsing constructor\<close>

text \<open>
  \<open>std::vector::resize\<close>: more than \<open>max_size()\<close> elements is \<open>std::length_error\<close>.
  \<open>max_size()\<close> is at most \<open>PTRDIFF_MAX\<close> divided by the element size.
\<close>

definition vector_max_size :: nat where
  "vector_max_size = 2 ^ 63 - 1"

definition vector_resize :: "nat \<Rightarrow> error + unit" where
  "vector_resize n = (if vector_max_size < n then Inl LengthError else Inr ())"

text \<open>
  The body of the loop over the result tables: the table's length prefix, the assertion,
  the limit moved to the end of the table, the slice handed to the table, the limit put
  back.
\<close>

definition read_table :: "nat \<Rightarrow> ByteBuffer \<Rightarrow> error + (Table \<times> ByteBuffer)" where
  "read_table startLimit buffer =
     and_then (getInt32 buffer)
       (\<lambda>(tableLength, buffer).
          if \<not> 4 \<le> sint tableLength then Inl AssertionFailed
          else
            and_then (add_int32 (int (m_position buffer)) (sint tableLength))
              (\<lambda>newLimit.
                 and_then (limit_set newLimit buffer)
                   (\<lambda>buffer.
                      case slice buffer of
                        (s, buffer) \<Rightarrow>
                          and_then (limit_set (int startLimit) buffer)
                            (\<lambda>buffer. Inr (Table s, buffer)))))"

fun read_tables :: "nat \<Rightarrow> nat \<Rightarrow> ByteBuffer \<Rightarrow> error + (Table list \<times> ByteBuffer)" where
  "read_tables 0 startLimit buffer = Inr ([], buffer)"
| "read_tables (Suc n) startLimit buffer =
     and_then (read_table startLimit buffer)
       (\<lambda>(t, buffer).
          and_then (read_tables n startLimit buffer)
            (\<lambda>(ts, buffer). Inr (t # ts, buffer)))"

text \<open>
  The optional exception block: \<open>position = buffer.position() + 4\<close> is taken before the
  length is read, then the position is set to \<open>position + length\<close>.
\<close>

definition skip_exception :: "ByteBuffer \<Rightarrow> error + ByteBuffer" where
  "skip_exception buffer =
     and_then (add_int32 (int (m_position buffer)) 4)
       (\<lambda>position.
          and_then (getInt32 buffer)
            (\<lambda>(len, buffer).
               and_then (add_int32 position (sint len))
                 (\<lambda>p. position_set p buffer)))"

text \<open>
  The test \<open>(presentFields & (1 << n)) != 0\<close>: the \<open>int8_t\<close> is promoted to \<open>int\<close>
  (sign-extended) before the mask is applied.
\<close>

definition field_present :: "8 word \<Rightarrow> nat \<Rightarrow> bool" where
  "field_present presentFields n = ((scast presentFields :: 32 word) AND push_bit n 1 \<noteq> 0)"

text \<open>
  \<open>InvocationResponse(boost::shared_array<char>& data, int32_t length)\<close>: the body of
  the constructor, from the first read on. It gives the response constructed and the
  local \<open>buffer\<close> as the constructor leaves it. The result count is the \<open>int16_t\<close>
  converted to \<open>size_t\<close> (64 bits).
\<close>

definition InvocationResponse_read ::
    "ByteBuffer \<Rightarrow> error + (InvocationResponse \<times> ByteBuffer)" where
  "InvocationResponse_read buffer =
     and_then (getInt8 buffer) (\<lambda>(version, buffer).
     if version \<noteq> 0 then Inl AssertionFailed else
     and_then (getInt64 buffer) (\<lambda>(clientData, buffer).
     and_then (getInt8 buffer) (\<lambda>(presentFields, buffer).
     and_then (getInt8 buffer) (\<lambda>(statusCode, buffer).
     and_then (if field_present presentFields 5 then getString False buffer
               else Inr (('''', False), buffer)) (\<lambda>((statusString, wasNull), buffer).
     and_then (getInt8 buffer) (\<lambda>(appStatusCode, buffer).
     and_then (if field_present presentFields 7 then getString wasNull buffer
               else Inr (('''', wasNull), buffer)) (\<lambda>((appStatusString, wasNull), buffer).
     if wasNull then Inl AssertionFailed else
     and_then (getInt32 buffer) (\<lambda>(clusterRoundTripTime, buffer).
     and_then (if field_present presentFields 6 then skip_exception buffer
               else Inr buffer) (\<lambda>buffer.
     and_then (getInt16 buffer) (\<lambda>(count, buffer).
     case unat (scast count :: 64 word) of resultCount \<Rightarrow>
     and_then (vector_resize resultCount) (\<lambda>_.
     and_then (read_tables resultCount (m_limit buffer) buffer) (\<lambda>(results, buffer).
     Inr (\<lparr> m_clientData = clientData,
            m_statusCode = statusCode,
            m_statusString = statusString,
            m_appStatusCode = appStatusCode,
            m_appStatusString = appStatusString,
            m_clusterRoundTripTime = clusterRoundTripTime,
            m_results = results \<rparr>, buffer)))))))))))))"

text \<open>The constructor: the buffer over the array, then the body; the result is the object.\<close>

definition InvocationResponse_parse :: "byte list \<Rightarrow> int \<Rightarrow> error + InvocationResponse" where
  "InvocationResponse_parse data len =
     and_then (SharedByteBuffer_of data len) (\<lambda>buffer.
     and_then (InvocationResponse_read buffer) (\<lambda>(r, buffer). Inr r))"

section \<open>The wire layout of an invocation response\<close>

text \<open>
  The frame as the specification lays it out (spec 4.2), field by field in wire order.
  A string is absent from the frame unless its bit of \<open>presentFields\<close> is set; a string
  that is present may still be null (\<open>None\<close>), which is the length -1 and no bytes. The
  exception block and the tables are byte blocks, each behind its 4-byte length.
\<close>

record frame =
  f_version :: "8 word"
  f_clientData :: "64 word"
  f_presentFields :: "8 word"
  f_statusCode :: "8 word"
  f_statusString :: "string option"
  f_appStatusCode :: "8 word"
  f_appStatusString :: "string option"
  f_clusterRoundTripTime :: "32 word"
  f_exception :: "byte list"
  f_resultCount :: "16 word"
  f_tables :: "byte list list"

text \<open>
  Following the specification (4.1): a string on the wire is a 4-byte signed length, -1
  for null, followed by the bytes; a block is its 4-byte length followed by its bytes.
\<close>

fun encode_string :: "string option \<Rightarrow> byte list" where
  "encode_string None = be_of_word 4 (- 1 :: 32 word)"
| "encode_string (Some s) =
     be_of_word 4 (word_of_nat (length s) :: 32 word) @ map byte_of_char s"

definition encode_block :: "byte list \<Rightarrow> byte list" where
  "encode_block bs = be_of_word 4 (word_of_nat (length bs) :: 32 word) @ bs"

text \<open>
  Following the specification (4.2): the payload of an invocation response, the fields
  in wire order.
\<close>

definition encode_frame :: "frame \<Rightarrow> byte list" where
  "encode_frame f =
     f_version f
     # be_of_word 8 (f_clientData f)
     @ f_presentFields f
     # f_statusCode f
     # (if bit (f_presentFields f) 5 then encode_string (f_statusString f) else [])
     @ f_appStatusCode f
     # (if bit (f_presentFields f) 7 then encode_string (f_appStatusString f) else [])
     @ be_of_word 4 (f_clusterRoundTripTime f)
     @ (if bit (f_presentFields f) 6 then encode_block (f_exception f) else [])
     @ be_of_word 2 (f_resultCount f)
     @ concat (map encode_block (f_tables f))"

text \<open>
  A well-formed frame: version 0, every string that is present is non-null, the result
  count is non-negative and is the number of tables that follow, every table has at
  least 4 bytes, and the whole frame has a length an \<open>int32_t\<close> can hold.
\<close>

definition well_formed_frame :: "frame \<Rightarrow> bool" where
  "well_formed_frame f =
     (f_version f = 0
      \<and> (bit (f_presentFields f) 5 \<longrightarrow> f_statusString f \<noteq> None)
      \<and> (bit (f_presentFields f) 7 \<longrightarrow> f_appStatusString f \<noteq> None)
      \<and> 0 \<le> sint (f_resultCount f)
      \<and> nat (sint (f_resultCount f)) = length (f_tables f)
      \<and> (\<forall>t \<in> set (f_tables f). 4 \<le> length t)
      \<and> length (encode_frame f) < 2 ^ 31)"

text \<open>A string whose presence bit is set is null.\<close>

definition null_string_present :: "frame \<Rightarrow> bool" where
  "null_string_present f =
     (bit (f_presentFields f) 5 \<and> f_statusString f = None
      \<or> bit (f_presentFields f) 7 \<and> f_appStatusString f = None)"

text \<open>The table a slice over the bytes \<open>t\<close> gives.\<close>

definition table_of_bytes :: "byte list \<Rightarrow> Table" where
  "table_of_bytes t =
     Table \<lparr> m_buffer = t, m_position = 0, m_limit = length t, m_capacity = length t \<rparr>"

fun string_or_empty :: "string option \<Rightarrow> string" where
  "string_or_empty None = ''''"
| "string_or_empty (Some s) = s"

text \<open>The response the specification expects from a frame.\<close>

definition response_of_frame :: "frame \<Rightarrow> InvocationResponse" where
  "response_of_frame f =
     \<lparr> m_clientData = f_clientData f,
       m_statusCode = f_statusCode f,
       m_statusString =
         (if bit (f_presentFields f) 5 then string_or_empty (f_statusString f) else ''''),
       m_appStatusCode = f_appStatusCode f,
       m_appStatusString =
         (if bit (f_presentFields f) 7 then string_or_empty (f_appStatusString f) else ''''),
       m_clusterRoundTripTime = f_clusterRoundTripTime f,
       m_results = map table_of_bytes (f_tables f) \<rparr>"

text \<open>
  A buffer over the bytes \<open>pre @ rest @ post\<close> whose position is behind \<open>pre\<close> and whose
  limit is behind \<open>rest\<close>: \<open>rest\<close> is what the buffer still has to give.
\<close>

definition buffer_at :: "byte list \<Rightarrow> byte list \<Rightarrow> byte list \<Rightarrow> nat \<Rightarrow> ByteBuffer" where
  "buffer_at pre rest post cap =
     \<lparr> m_buffer = pre @ rest @ post, m_position = length pre,
       m_limit = length pre + length rest, m_capacity = cap \<rparr>"

text \<open>
  Two buffers over the same bytes at the same position, the first with limit and capacity
  \<open>L\<close>, the second with limit and capacity \<open>n\<close>: the first is the second cut short.
\<close>

definition narrowed :: "nat \<Rightarrow> nat \<Rightarrow> ByteBuffer \<Rightarrow> ByteBuffer \<Rightarrow> bool" where
  "narrowed L n b c =
     (m_buffer b = m_buffer c \<and> m_position b = m_position c \<and> m_position b \<le> L
      \<and> m_limit b = L \<and> m_capacity b = L \<and> m_limit c = n \<and> m_capacity c = n)"

section \<open>Stream serialization\<close>

text \<open>
  \<open>operator >>\<close> and \<open>InvocationResponse(std::istream&)\<close> copy the object
  representation of each field to and from the stream, in the byte order of the host,
  which is a parameter here. \<open>size_t\<close> has 64 bits.
\<close>

datatype byte_order = BigEndian | LittleEndian

definition native_of_word :: "byte_order \<Rightarrow> nat \<Rightarrow> 'a::len word \<Rightarrow> byte list" where
  "native_of_word order n w =
     (case order of BigEndian \<Rightarrow> be_of_word n w | LittleEndian \<Rightarrow> rev (be_of_word n w))"

definition word_of_native :: "byte_order \<Rightarrow> byte list \<Rightarrow> 'a::len word" where
  "word_of_native order bs =
     (case order of BigEndian \<Rightarrow> word_of_be bs | LittleEndian \<Rightarrow> word_of_be (rev bs))"

text \<open>
  An output stream is the bytes written so far, an input stream the bytes still to be
  read. \<open>istream::read\<close> past the end sets the fail bit and leaves the destination as it
  was, which for the uninitialised fields of the constructor is no defined value: that is
  \<open>StreamFailure\<close>.
\<close>

type_synonym ostream = "byte list"

type_synonym istream = "byte list"

definition ostream_write :: "byte list \<Rightarrow> ostream \<Rightarrow> ostream" where
  "ostream_write bs os = os @ bs"

definition istream_read :: "nat \<Rightarrow> istream \<Rightarrow> error + (byte list \<times> istream)" where
  "istream_read n is =
     (if length is < n then Inl StreamFailure else Inr (take n is, drop n is))"

text \<open>
  \<open>writeString\<close>: \<open>const int32_t size = str.size()\<close> keeps the low 32 bits of the
  length; \<open>ostream.write(str.data(), size)\<close> writes \<open>size\<close> characters, none for a
  count that is not positive.
\<close>

definition writeString :: "byte_order \<Rightarrow> string \<Rightarrow> ostream \<Rightarrow> ostream" where
  "writeString order str os =
     (let sz = (word_of_nat (length str) :: 32 word);
          os = ostream_write (native_of_word order 4 sz) os
      in if sz \<noteq> 0
         then ostream_write (take (nat (sint sz)) (map byte_of_char str)) os
         else os)"

text \<open>
  \<open>readString\<close>: \<open>str.resize(size)\<close> converts the \<open>int32_t\<close> to \<open>size_t\<close>, so a
  negative size asks for more than \<open>max_size()\<close> characters, which is
  \<open>std::length_error\<close>.
\<close>

definition readString :: "byte_order \<Rightarrow> istream \<Rightarrow> error + (string \<times> istream)" where
  "readString order is =
     and_then (istream_read 4 is)
       (\<lambda>(bs, is).
          case (word_of_native order bs :: 32 word) of sz \<Rightarrow>
            if sz \<noteq> 0
            then if sint sz < 0 then Inl LengthError
                 else and_then (istream_read (nat (sint sz)) is)
                        (\<lambda>(cs, is). Inr (map char_of_byte cs, is))
            else Inr ('''', is))"

text \<open>
  \<open>Table::operator >>\<close> and \<open>Table(std::istream&)\<close> are declared in Table.h, which is
  not among the sources: they are the parameters \<open>table_out\<close>, the bytes a table writes,
  and \<open>table_in\<close>, the table read from a stream and the stream behind it.
\<close>

fun write_tables :: "(Table \<Rightarrow> byte list) \<Rightarrow> Table list \<Rightarrow> ostream \<Rightarrow> ostream" where
  "write_tables table_out [] os = os"
| "write_tables table_out (t # ts) os =
     write_tables table_out ts (ostream_write (table_out t) os)"

fun read_tables_stream ::
    "(istream \<Rightarrow> error + (Table \<times> istream)) \<Rightarrow> nat \<Rightarrow> istream
      \<Rightarrow> error + (Table list \<times> istream)" where
  "read_tables_stream table_in 0 is = Inr ([], is)"
| "read_tables_stream table_in (Suc n) is =
     and_then (table_in is)
       (\<lambda>(t, is).
          and_then (read_tables_stream table_in n is)
            (\<lambda>(ts, is). Inr (t # ts, is)))"

text \<open>\<open>void operator >> (std::ostream &ostream) const\<close>.\<close>

definition operator_rshift ::
    "byte_order \<Rightarrow> (Table \<Rightarrow> byte list) \<Rightarrow> InvocationResponse \<Rightarrow> ostream \<Rightarrow> ostream" where
  "operator_rshift order table_out r os =
     (let os = ostream_write (native_of_word order 1 (m_statusCode r)) os;
          os = writeString order (m_statusString r) os;
          os = ostream_write (native_of_word order 1 (m_appStatusCode r)) os;
          os = writeString order (m_appStatusString r) os;
          os = ostream_write (native_of_word order 8 (m_clientData r)) os;
          os = ostream_write (native_of_word order 4 (m_clusterRoundTripTime r)) os;
          sz = (word_of_nat (length (m_results r)) :: 64 word);
          os = ostream_write (native_of_word order 8 sz) os
      in write_tables table_out (m_results r) os)"

text \<open>\<open>InvocationResponse(std::istream &istream)\<close>.\<close>

definition InvocationResponse_of_istream ::
    "byte_order \<Rightarrow> (istream \<Rightarrow> error + (Table \<times> istream)) \<Rightarrow> istream
      \<Rightarrow> error + (InvocationResponse \<times> istream)" where
  "InvocationResponse_of_istream order table_in is =
     and_then (istream_read 1 is) (\<lambda>(bs, is).
     let statusCode = (word_of_native order bs :: 8 word) in
     and_then (readString order is) (\<lambda>(statusString, is).
     and_then (istream_read 1 is) (\<lambda>(bs, is).
     let appStatusCode = (word_of_native order bs :: 8 word) in
     and_then (readString order is) (\<lambda>(appStatusString, is).
     and_then (istream_read 8 is) (\<lambda>(bs, is).
     let clientData = (word_of_native order bs :: 64 word) in
     and_then (istream_read 4 is) (\<lambda>(bs, is).
     let clusterRoundTripTime = (word_of_native order bs :: 32 word) in
     and_then (istream_read 8 is) (\<lambda>(bs, is).
     let sz = unat (word_of_native order bs :: 64 word) in
     and_then (vector_resize sz) (\<lambda>_.
     and_then (read_tables_stream table_in sz is) (\<lambda>(results, is).
     Inr (\<lparr> m_clientData = clientData,
            m_statusCode = statusCode,
            m_statusString = statusString,
            m_appStatusCode = appStatusCode,
            m_appStatusString = appStatusString,
            m_clusterRoundTripTime = clusterRoundTripTime,
            m_results = results \<rparr>, is))))))))))"

section \<open>The event loop driver\<close>

text \<open>
  Modelled from the spec: the states of a connection (spec 4.3). The connection state
  machine is not among the sources.
\<close>

datatype connection_state = Connecting | Authenticating | Ready | Draining | Closed













section \<open>Concrete frames\<close>

text \<open>
  A frame with all three optional parts and two result tables, of 4 and 5 bytes.
\<close>

definition example_frame :: frame where
  "example_frame =
     \<lparr> f_version = 0, f_clientData = 7, f_presentFields = 0xE0, f_statusCode = 0xFE,
       f_statusString = Some ''constraint'', f_appStatusCode = 3,
       f_appStatusString = Some ''app'', f_clusterRoundTripTime = 5,
       f_exception = [1, 2, 3], f_resultCount = 2,
       f_tables = [[9, 9, 9, 9], [8, 8, 8, 8, 8]] \<rparr>"

text \<open>The frame above with a status string that is present and null.\<close>

definition null_string_frame :: frame where
  "null_string_frame = example_frame\<lparr>f_statusString := None\<rparr>"

text \<open>
  The response of scenario E3 on the wire: client data 1, presentFields with bit 5 only,
  status code -2, the status string "constraint", application status -128, round-trip
  time 0, no tables.
\<close>

definition frame_E3 :: "byte list" where
  "frame_E3 =
     [0,  0, 0, 0, 0, 0, 0, 0, 1,  0x20,  0xFE,
      0, 0, 0, 10,  0x63, 0x6F, 0x6E, 0x73, 0x74, 0x72, 0x61, 0x69, 0x6E, 0x74,
      0x80,  0, 0, 0, 0,  0, 0]"

text \<open>
  The response of scenario E1 on the wire: status code 1, no optional part, no tables.
\<close>

definition frame_E1 :: "byte list" where
  "frame_E1 = [0,  0, 0, 0, 0, 0, 0, 0, 1,  0,  1,  0x80,  0, 0, 0, 0,  0, 0]"

text \<open>
  A buffer of 17 bytes holding two tables behind their length prefixes, of 4 and of 5
  bytes.
\<close>

definition two_tables_buffer :: ByteBuffer where
  "two_tables_buffer =
     \<lparr> m_buffer = [0, 0, 0, 4,  9, 9, 9, 9,  0, 0, 0, 5,  8, 8, 8, 8, 8],
       m_position = 0, m_limit = 17, m_capacity = 17 \<rparr>"

text \<open>
  A table codec for the streams, to run the stream functions on: a table is written as
  the 4-byte length of its slice and the bytes of the slice.
\<close>

definition example_table_out :: "Table \<Rightarrow> byte list" where
  "example_table_out t =
     (case t of Table b \<Rightarrow>
        be_of_word 4 (word_of_nat (m_limit b) :: 32 word) @ take (m_limit b) (m_buffer b))"

definition example_table_in :: "istream \<Rightarrow> error + (Table \<times> istream)" where
  "example_table_in is =
     and_then (istream_read 4 is)
       (\<lambda>(bs, is).
          and_then (istream_read (unat (word_of_be bs :: 32 word)) is)
            (\<lambda>(cs, is). Inr (table_of_bytes cs, is)))"

text \<open>A response with two result tables.\<close>

definition example_response :: InvocationResponse where
  "example_response =
     \<lparr> m_clientData = 7, m_statusCode = 0xFE, m_statusString = ''constraint'',
       m_appStatusCode = 3, m_appStatusString = ''app'', m_clusterRoundTripTime = 5,
       m_results = [table_of_bytes [9, 9, 9, 9], table_of_bytes [8, 8, 8, 8, 8]] \<rparr>"

text \<open>
  A stream holding a response in little-endian order: status code 1, an empty status
  string, application status -128, an empty application status string, client data 1,
  round-trip time 0 and no tables.
\<close>

definition example_stream :: istream where
  "example_stream =
     [1,  0, 0, 0, 0,  0x80,  0, 0, 0, 0,  1, 0, 0, 0, 0, 0, 0, 0,  0, 0, 0, 0,
      0, 0, 0, 0, 0, 0, 0, 0]"


definition clobbering_table_toString :: "Table \<Rightarrow> string \<Rightarrow> string \<Rightarrow> string \<times> Table" where
  "clobbering_table_toString t os indent = (os, table_of_bytes [])"







section \<open>Reading from a buffer that holds an encoded frame\<close>

lemma be_step:
  "push_bit (8 * n) (push_bit 8 acc OR ucast (ucast (drop_bit (8 * n) w) :: byte)) OR take_bit (8 * n) w
   = (push_bit (8 * Suc n) acc OR take_bit (8 * Suc n) (w::'a::len word) :: 'a word)"
proof (rule bit_word_eqI)
  fix k assume kl: "k < LENGTH('a)"
  show "bit (push_bit (8 * n) (push_bit 8 acc OR ucast (ucast (drop_bit (8 * n) w) :: byte)) OR take_bit (8 * n) w) k
     = bit (push_bit (8 * Suc n) acc OR take_bit (8 * Suc n) w) k"
  proof (cases "k < 8 * n")
    case True
    then show ?thesis by (simp add: bit_simps)
  next
    case False
    then have a: "8 * n \<le> k" by simp
    show ?thesis
    proof (cases "k < 8 * n + 8")
      case True
      with a kl show ?thesis by (auto simp add: bit_simps)
    next
      case False
      then have "k - 8 * n - 8 = k - (8 + 8 * n)" by simp
      with False a kl show ?thesis by (auto simp add: bit_simps)
    qed
  qed
qed

lemma foldl_be_of_word:
  "foldl (\<lambda>acc b. push_bit 8 acc OR ucast b) acc (be_of_word n (w::'a::len word))
   = (push_bit (8 * n) acc OR take_bit (8 * n) w :: 'a word)"
proof (induction n arbitrary: acc)
  case 0
  then show ?case by simp
next
  case (Suc n)
  show ?case
    using be_step [of n acc w] by (simp add: Suc.IH)
qed

lemma word_of_be_of_word:
  "LENGTH('a) \<le> 8 * n \<Longrightarrow> word_of_be (be_of_word n w) = (w::'a::len word)"
  by (simp add: word_of_be_def foldl_be_of_word take_bit_word_eq_self)

lemma length_be_of_word [simp]: "length (be_of_word n w) = n"
  by (induction n) auto

lemma word_of_be_single [simp]: "word_of_be [x] = (x :: byte)"
  by (simp add: word_of_be_def)

lemma char_of_byte_of_char [simp]: "char_of_byte (byte_of_char c) = c"
proof -
  have "unat (word_of_nat (of_char c) :: byte) = of_char c mod 256"
    by (simp add: unat_of_nat)
  then show ?thesis
    by (simp add: char_of_byte_def byte_of_char_def)
qed

lemma and_then_Inr [simp]: "and_then (Inr x) f = f x"
  by (simp add: and_then_def)

lemma and_then_Inl [simp]: "and_then (Inl e) f = Inl e"
  by (simp add: and_then_def)

lemma getBytes_buffer_at:
  "getBytes (int (length xs)) (buffer_at pre (xs @ rest) post cap)
     = Inr (xs, buffer_at (pre @ xs) rest post cap)"
  by (simp add: getBytes_def checkGetPutIndex_def buffer_at_def)

lemma getInt8_buffer_at [simp]:
  "getInt8 (buffer_at pre (x # rest) post cap) = Inr (x, buffer_at (pre @ [x]) rest post cap)"
  using getBytes_buffer_at [of "[x]" pre rest post cap] by (simp add: getInt8_def)

lemma getInt16_buffer_at [simp]:
  "getInt16 (buffer_at pre (be_of_word 2 w @ rest) post cap)
     = Inr (w, buffer_at (pre @ be_of_word 2 w) rest post cap)"
  using getBytes_buffer_at [of "be_of_word 2 w" pre rest post cap]
  by (simp add: getInt16_def word_of_be_of_word)

lemma getInt32_buffer_at [simp]:
  "getInt32 (buffer_at pre (be_of_word 4 w @ rest) post cap)
     = Inr (w, buffer_at (pre @ be_of_word 4 w) rest post cap)"
  using getBytes_buffer_at [of "be_of_word 4 w" pre rest post cap]
  by (simp add: getInt32_def word_of_be_of_word)

lemma getInt64_buffer_at [simp]:
  "getInt64 (buffer_at pre (be_of_word 8 w @ rest) post cap)
     = Inr (w, buffer_at (pre @ be_of_word 8 w) rest post cap)"
  using getBytes_buffer_at [of "be_of_word 8 w" pre rest post cap]
  by (simp add: getInt64_def word_of_be_of_word)

lemma sint_length32: "n < 2 ^ 31 \<Longrightarrow> sint (word_of_nat n :: 32 word) = int n"
  by (simp add: signed_of_nat signed_take_bit_int_eq_self)

lemma getString_Some_buffer_at:
  assumes "length s < 2 ^ 31"
  shows "getString wasNull (buffer_at pre (encode_string (Some s) @ rest) post cap)
     = Inr ((s, wasNull), buffer_at (pre @ encode_string (Some s)) rest post cap)"
proof -
  have len: "sint (word_of_nat (length s) :: 32 word) = int (length (map byte_of_char s))"
    using assms by (simp add: sint_length32)
  show ?thesis
    unfolding getString_def
    by (simp add: len getBytes_buffer_at comp_def del: length_map)
qed

lemma getString_None_buffer_at:
  "getString wasNull (buffer_at pre (encode_string None @ rest) post cap)
     = Inr (('''', True), buffer_at (pre @ encode_string None) rest post cap)"
  by (simp add: getString_def)

lemma skip_exception_buffer_at:
  assumes "length pre + 4 + length exc < 2 ^ 31"
  shows "skip_exception (buffer_at pre (encode_block exc @ rest) post cap)
     = Inr (buffer_at (pre @ encode_block exc) rest post cap)"
proof -
  have len: "sint (word_of_nat (length exc) :: 32 word) = int (length exc)"
    using assms by (simp add: sint_length32)
  have p: "m_position (buffer_at pre (encode_block exc @ rest) post cap) = length pre"
    by (simp add: buffer_at_def)
  show ?thesis
    unfolding skip_exception_def p encode_block_def
    using assms
    by (simp add: len add_int32_def) (simp add: buffer_at_def position_set_def)
qed

lemma read_table_buffer_at:
  assumes "4 \<le> length t" and "length pre + 4 + length t < 2 ^ 31"
    and "length pre + 4 + length t + length rest \<le> cap"
  shows "read_table (length pre + 4 + length t + length rest)
           (buffer_at pre (encode_block t @ rest) post cap)
         = Inr (table_of_bytes t, buffer_at (pre @ encode_block t) rest post cap)"
proof -
  have len: "sint (word_of_nat (length t) :: 32 word) = int (length t)"
    using assms by (simp add: sint_length32)
  show ?thesis
    unfolding read_table_def encode_block_def
    using assms
    apply (simp add: len)
    apply (simp add: buffer_at_def add_int32_def limit_set_def slice_def table_of_bytes_def)
    apply (intro conjI; linarith)
    done
qed

lemma read_tables_buffer_at:
  assumes "\<forall>t \<in> set ts. 4 \<le> length t"
    and "length pre + length (concat (map encode_block ts)) + length rest < 2 ^ 31"
    and "length pre + length (concat (map encode_block ts)) + length rest \<le> cap"
    and "startLimit = length pre + length (concat (map encode_block ts)) + length rest"
  shows "read_tables (length ts) startLimit
           (buffer_at pre (concat (map encode_block ts) @ rest) post cap)
         = Inr (map table_of_bytes ts,
                buffer_at (pre @ concat (map encode_block ts)) rest post cap)"
  using assms
proof (induction ts arbitrary: pre)
  case Nil
  then show ?case by simp
next
  case (Cons t ts)
  let ?rest = "concat (map encode_block ts) @ rest"
  have lb: "length (encode_block t) = 4 + length t"
    by (simp add: encode_block_def)
  have sl: "startLimit = length pre + 4 + length t + length ?rest"
    using Cons.prems(4) by (simp add: lb)
  have one: "read_table startLimit (buffer_at pre (encode_block t @ ?rest) post cap)
      = Inr (table_of_bytes t, buffer_at (pre @ encode_block t) ?rest post cap)"
    unfolding sl
    using Cons.prems by (intro read_table_buffer_at) (simp_all add: lb)
  have more: "read_tables (length ts) startLimit
           (buffer_at (pre @ encode_block t) (concat (map encode_block ts) @ rest) post cap)
         = Inr (map table_of_bytes ts,
                buffer_at ((pre @ encode_block t) @ concat (map encode_block ts)) rest post cap)"
    using Cons.prems by (intro Cons.IH) (simp_all add: lb)
  show ?case
    by (simp add: one more)
qed

lemma read_table_short_buffer_at:
  assumes "length t < 4"
  shows "read_table startLimit (buffer_at pre (encode_block t @ rest) post cap)
         = Inl AssertionFailed"
proof -
  have len: "sint (word_of_nat (length t) :: 32 word) = int (length t)"
    using assms by (simp add: sint_length32)
  show ?thesis
    unfolding read_table_def encode_block_def
    using assms by (simp add: len)
qed

lemma read_tables_short_buffer_at:
  assumes "\<exists>t \<in> set ts. length t < 4"
    and "length pre + length (concat (map encode_block ts)) + length rest < 2 ^ 31"
    and "length pre + length (concat (map encode_block ts)) + length rest \<le> cap"
    and "startLimit = length pre + length (concat (map encode_block ts)) + length rest"
  shows "read_tables (length ts) startLimit
           (buffer_at pre (concat (map encode_block ts) @ rest) post cap)
         = Inl AssertionFailed"
  using assms
proof (induction ts arbitrary: pre)
  case Nil
  then show ?case by simp
next
  case (Cons t ts)
  let ?rest = "concat (map encode_block ts) @ rest"
  have lb: "length (encode_block t) = 4 + length t"
    by (simp add: encode_block_def)
  show ?case
  proof (cases "length t < 4")
    case True
    then show ?thesis
      using read_table_short_buffer_at [of t startLimit pre ?rest post cap] by simp
  next
    case False
    then have short: "\<exists>t \<in> set ts. length t < 4"
      using Cons.prems(1) by auto
    have sl: "startLimit = length pre + 4 + length t + length ?rest"
      using Cons.prems(4) by (simp add: lb)
    have one: "read_table startLimit (buffer_at pre (encode_block t @ ?rest) post cap)
        = Inr (table_of_bytes t, buffer_at (pre @ encode_block t) ?rest post cap)"
      unfolding sl
      using Cons.prems False by (intro read_table_buffer_at) (simp_all add: lb)
    have more: "read_tables (length ts) startLimit
             (buffer_at (pre @ encode_block t) (concat (map encode_block ts) @ rest) post cap)
           = Inl AssertionFailed"
      using Cons.prems short by (intro Cons.IH) (simp_all add: lb)
    show ?thesis
      by (simp add: one more)
  qed
qed

lemma field_present_iff: "n < 8 \<Longrightarrow> field_present pf n = bit pf n"
proof -
  assume n: "n < 8"
  have "((scast pf :: 32 word) AND push_bit n 1 = 0) = (\<not> bit (scast pf :: 32 word) n)"
    by (simp add: and_exp_eq_0_iff_not_bit push_bit_eq_mult)
  moreover have "bit (scast pf :: 32 word) n = bit pf n"
  proof (cases "n = 7")
    case True
    then show ?thesis by (simp add: bit_signed_iff min_def)
  next
    case False
    with n have "n < 7" by simp
    then show ?thesis by (simp add: bit_signed_iff min_def)
  qed
  ultimately show ?thesis
    by (simp add: field_present_def)
qed


lemma length_encode_string_Some: "length (encode_string (Some s)) = 4 + length s"
  by simp

lemma unat_scast_count:
  "0 \<le> sint (c :: 16 word) \<Longrightarrow> unat (scast c :: 64 word) = nat (sint c)"
proof -
  assume nn: "0 \<le> sint c"
  have lt: "sint c < 2 ^ 15"
    using sint_lt [of c] by simp
  have "uint (scast c :: 64 word) = take_bit 64 (sint c)"
    by (simp only: scast_eq uint_word_of_int_eq) simp
  also have "\<dots> = sint c"
    using nn lt by (simp add: take_bit_int_eq_self)
  finally have "uint (scast c :: 64 word) = sint c" .
  then show ?thesis
    by (simp only: unat_eq_nat_uint)
qed

lemma count_of_negative:
  assumes "unat (scast (c :: 16 word) :: 64 word) \<le> vector_max_size"
  shows "0 \<le> sint c"
proof (rule ccontr)
  assume "\<not> 0 \<le> sint c"
  then have neg: "sint c < 0" by simp
  have lo: "- (2 ^ 15) \<le> sint c"
    using sint_ge [of c] by simp
  have "uint (scast c :: 64 word) = take_bit 64 (sint c)"
    by (simp only: scast_eq uint_word_of_int_eq) simp
  also have "\<dots> = sint c mod 2 ^ 64"
    by (simp add: take_bit_eq_mod)
  also have "\<dots> = (sint c + 2 ^ 64) mod 2 ^ 64"
    by simp
  also have "\<dots> = sint c + 2 ^ 64"
    using neg lo by (intro mod_pos_pos_trivial) simp_all
  finally have "uint (scast c :: 64 word) = sint c + 2 ^ 64" .
  then have "unat (scast c :: 64 word) = nat (sint c + 2 ^ 64)"
    by (simp only: unat_eq_nat_uint)
  with assms lo show False
    by (simp add: vector_max_size_def)
qed

text \<open>
  What the body of the constructor does on the bytes of a frame, whatever follows them
  in the array: the assertions fail on a version other than 0 and on a null string that
  is present, the resize fails on a negative result count, and otherwise the fields of
  the frame are returned and the buffer is left behind the frame.
\<close>

lemma read_encode_frame_general:
  assumes n31: "length (encode_frame f) < 2 ^ 31"
    and tabs: "f_version f = 0 \<Longrightarrow> \<not> null_string_present f \<Longrightarrow> 0 \<le> sint (f_resultCount f)
        \<Longrightarrow> nat (sint (f_resultCount f)) = length (f_tables f)"
  shows "InvocationResponse_read
           (buffer_at [] (encode_frame f) extra (length (encode_frame f)))
         = (if f_version f \<noteq> 0 then Inl AssertionFailed
            else if null_string_present f then Inl AssertionFailed
            else if sint (f_resultCount f) < 0 then Inl LengthError
            else if \<exists>t \<in> set (f_tables f). length t < 4 then Inl AssertionFailed
            else Inr (response_of_frame f,
                      buffer_at (encode_frame f) [] extra (length (encode_frame f))))"
proof -
  define n where "n = length (encode_frame f)"
  define pf where "pf = f_presentFields f"
  define S where "S = (if bit pf 5 then encode_string (f_statusString f) else [])"
  define A where "A = (if bit pf 7 then encode_string (f_appStatusString f) else [])"
  define E where "E = (if bit pf 6 then encode_block (f_exception f) else [])"
  define T where "T = concat (map encode_block (f_tables f))"
  have enc: "encode_frame f =
      f_version f # be_of_word 8 (f_clientData f) @ pf # f_statusCode f # S
        @ f_appStatusCode f # A @ be_of_word 4 (f_clusterRoundTripTime f) @ E
        @ be_of_word 2 (f_resultCount f) @ T"
    by (simp add: encode_frame_def pf_def S_def A_def E_def T_def)
  have n: "n = 18 + length S + length A + length E + length T"
    by (simp add: n_def enc)
  have n31': "n < 2 ^ 31"
    using n31 by (simp add: n_def)
  have rS: "(if bit pf 5 then getString False (buffer_at pre (S @ rest) extra n)
             else Inr (('''', False), buffer_at pre (S @ rest) extra n))
      = Inr ((m_statusString (response_of_frame f), bit pf 5 \<and> f_statusString f = None),
             buffer_at (pre @ S) rest extra n)"
    for pre rest
  proof (cases "bit pf 5")
    case True
    show ?thesis
    proof (cases "f_statusString f")
      case None
      then show ?thesis
        using True
        by (simp add: S_def getString_None_buffer_at response_of_frame_def pf_def
            del: encode_string.simps)
    next
      case (Some s)
      have "length s < 2 ^ 31"
        using n n31' True Some by (simp add: S_def)
      then show ?thesis
        using True Some
        by (simp add: S_def getString_Some_buffer_at response_of_frame_def pf_def
            del: encode_string.simps)
    qed
  next
    case False
    then show ?thesis
      by (simp add: S_def response_of_frame_def pf_def)
  qed
  have rA: "(if bit pf 7 then getString w (buffer_at pre (A @ rest) extra n)
             else Inr (('''', w), buffer_at pre (A @ rest) extra n))
      = Inr ((m_appStatusString (response_of_frame f),
              w \<or> (bit pf 7 \<and> f_appStatusString f = None)),
             buffer_at (pre @ A) rest extra n)"
    for pre rest w
  proof (cases "bit pf 7")
    case True
    show ?thesis
    proof (cases "f_appStatusString f")
      case None
      then show ?thesis
        using True
        by (simp add: A_def getString_None_buffer_at response_of_frame_def pf_def
            del: encode_string.simps)
    next
      case (Some s)
      have "length s < 2 ^ 31"
        using n n31' True Some by (simp add: A_def)
      then show ?thesis
        using True Some
        by (simp add: A_def getString_Some_buffer_at response_of_frame_def pf_def
            del: encode_string.simps)
    qed
  next
    case False
    then show ?thesis
      by (simp add: A_def response_of_frame_def pf_def)
  qed
  have nsp: "(bit pf 5 \<and> f_statusString f = None \<or> bit pf 7 \<and> f_appStatusString f = None)
      = null_string_present f"
    by (simp add: null_string_present_def pf_def)
  show ?thesis
  proof (cases "f_version f = 0")
    case False
    then show ?thesis
      unfolding InvocationResponse_read_def enc
      by simp
  next
    case v0: True
    have front: "InvocationResponse_read (buffer_at [] (encode_frame f) extra n)
        = (if null_string_present f then Inl AssertionFailed
           else and_then (getInt32 (buffer_at
                   (0 # be_of_word 8 (f_clientData f) @ pf # f_statusCode f # S
                      @ f_appStatusCode f # A)
                   (be_of_word 4 (f_clusterRoundTripTime f) @ E
                      @ be_of_word 2 (f_resultCount f) @ T) extra n))
             (\<lambda>(clusterRoundTripTime, buffer).
               and_then (if field_present pf 6 then skip_exception buffer
                         else Inr buffer) (\<lambda>buffer.
               and_then (getInt16 buffer) (\<lambda>(count, buffer).
               case unat (scast count :: 64 word) of resultCount \<Rightarrow>
               and_then (vector_resize resultCount) (\<lambda>_.
               and_then (read_tables resultCount (m_limit buffer) buffer) (\<lambda>(results, buffer).
               Inr (\<lparr> m_clientData = f_clientData f,
                      m_statusCode = f_statusCode f,
                      m_statusString = m_statusString (response_of_frame f),
                      m_appStatusCode = f_appStatusCode f,
                      m_appStatusString = m_appStatusString (response_of_frame f),
                      m_clusterRoundTripTime = clusterRoundTripTime,
                      m_results = results \<rparr>, buffer)))))))"
      unfolding InvocationResponse_read_def
      unfolding enc
      by (simp add: v0 field_present_iff rS rA nsp split del: if_split)
    show ?thesis
    proof (cases "null_string_present f")
      case True
      then show ?thesis
        using front v0 by (simp add: n_def)
    next
      case nonull: False
      have rE: "(if bit pf 6 then skip_exception (buffer_at pre (E @ rest) extra n)
                 else Inr (buffer_at pre (E @ rest) extra n))
          = Inr (buffer_at (pre @ E) rest extra n)"
        if "length pre + length E \<le> n" for pre rest
      proof (cases "bit pf 6")
        case True
        have "length pre + 4 + length (f_exception f) < 2 ^ 31"
          using that n31' True by (simp add: E_def encode_block_def)
        then show ?thesis
          using True by (simp add: E_def skip_exception_buffer_at)
      next
        case False
        then show ?thesis
          by (simp add: E_def)
      qed
      have lim: "m_limit (buffer_at pre rest extra cap) = length pre + length rest"
        for pre rest cap
        by (simp add: buffer_at_def)
      have upto_count: "InvocationResponse_read (buffer_at [] (encode_frame f) extra n)
          = and_then (vector_resize (unat (scast (f_resultCount f) :: 64 word))) (\<lambda>_.
              and_then (read_tables (unat (scast (f_resultCount f) :: 64 word)) n
                 (buffer_at
                   (0 # be_of_word 8 (f_clientData f) @ pf # f_statusCode f # S
                      @ f_appStatusCode f # A @ be_of_word 4 (f_clusterRoundTripTime f) @ E
                      @ be_of_word 2 (f_resultCount f)) T extra n))
                (\<lambda>(results, buffer).
                   Inr (\<lparr> m_clientData = f_clientData f,
                          m_statusCode = f_statusCode f,
                          m_statusString = m_statusString (response_of_frame f),
                          m_appStatusCode = f_appStatusCode f,
                          m_appStatusString = m_appStatusString (response_of_frame f),
                          m_clusterRoundTripTime = f_clusterRoundTripTime f,
                          m_results = results \<rparr>, buffer)))"
        unfolding front
        apply (simp add: nonull field_present_iff split del: if_split)
        apply (subst rE)
         apply (simp add: n)
        apply (simp add: lim n add.assoc)
        done
      show ?thesis
      proof (cases "sint (f_resultCount f) < 0")
        case True
        then have "\<not> unat (scast (f_resultCount f) :: 64 word) \<le> vector_max_size"
          using count_of_negative [of "f_resultCount f"] by auto
        then have "vector_resize (unat (scast (f_resultCount f) :: 64 word)) = Inl LengthError"
          by (simp add: vector_resize_def)
        then show ?thesis
          using True v0 nonull by (simp add: upto_count n_def [symmetric])
      next
        case False
        then have nn: "0 \<le> sint (f_resultCount f)"
          by simp
        note tabs' = tabs [OF v0 nonull nn]
        have cnt: "unat (scast (f_resultCount f) :: 64 word) = length (f_tables f)"
          using tabs' nn by (simp add: unat_scast_count)
        have small: "length (f_tables f) < 2 ^ 15"
        proof -
          have "sint (f_resultCount f) < 32768"
            using sint_lt [of "f_resultCount f"] by simp
          moreover have "nat (sint (f_resultCount f)) = length (f_tables f)"
            using tabs' by simp
          ultimately show ?thesis
            using nn by simp
        qed
        have rsz: "vector_resize (length (f_tables f)) = Inr ()"
          using small by (simp add: vector_resize_def vector_max_size_def)
        show ?thesis
        proof (cases "\<exists>t \<in> set (f_tables f). length t < 4")
          case True
          have "read_tables (length (f_tables f)) n
                  (buffer_at pre (concat (map encode_block (f_tables f)) @ []) extra n)
              = Inl AssertionFailed"
            if "length pre + length T = n" for pre
            using True that n31'
            by (intro read_tables_short_buffer_at) (simp_all add: T_def)
          then have rT: "read_tables (length (f_tables f)) n (buffer_at pre T extra n)
              = Inl AssertionFailed"
            if "length pre + length T = n" for pre
            using that by (simp add: T_def)
          have "InvocationResponse_read (buffer_at [] (encode_frame f) extra n)
              = Inl AssertionFailed"
            unfolding upto_count cnt
            apply (simp add: rsz)
            apply (subst rT)
             apply (simp add: n)
            apply simp
            done
          then show ?thesis
            using True nn v0 nonull by (simp add: n_def)
        next
          case False
          then have all4: "\<forall>t \<in> set (f_tables f). 4 \<le> length t"
            by (simp add: not_less)
          have rT: "read_tables (length (f_tables f)) n (buffer_at pre T extra n)
              = Inr (map table_of_bytes (f_tables f), buffer_at (pre @ T) [] extra n)"
            if "length pre + length T = n" for pre
          proof -
            have "read_tables (length (f_tables f)) n
                    (buffer_at pre (concat (map encode_block (f_tables f)) @ []) extra n)
                = Inr (map table_of_bytes (f_tables f),
                       buffer_at (pre @ concat (map encode_block (f_tables f))) [] extra n)"
              using all4 that n31'
              by (intro read_tables_buffer_at) (simp_all add: T_def)
            then show ?thesis
              by (simp add: T_def)
          qed
          have "InvocationResponse_read (buffer_at [] (encode_frame f) extra n)
              = Inr (response_of_frame f, buffer_at (encode_frame f) [] extra n)"
            unfolding upto_count cnt
            apply (simp add: rsz)
            apply (subst rT)
             apply (simp add: n)
            apply (simp add: response_of_frame_def enc v0)
            done
          then show ?thesis
            using False nn v0 nonull by (simp add: n_def)
        qed
      qed
    qed
  qed
qed

lemma SharedByteBuffer_of_frame:
  "SharedByteBuffer_of (bs @ extra) (int (length bs)) = Inr (buffer_at [] bs extra (length bs))"
  by (simp add: SharedByteBuffer_of_def buffer_at_def)

lemma parse_encode_frame_general:
  assumes "length (encode_frame f) < 2 ^ 31"
    and "f_version f = 0 \<Longrightarrow> \<not> null_string_present f \<Longrightarrow> 0 \<le> sint (f_resultCount f)
        \<Longrightarrow> nat (sint (f_resultCount f)) = length (f_tables f)"
  shows "InvocationResponse_parse (encode_frame f @ extra) (int (length (encode_frame f)))
         = (if f_version f \<noteq> 0 then Inl AssertionFailed
            else if null_string_present f then Inl AssertionFailed
            else if sint (f_resultCount f) < 0 then Inl LengthError
            else if \<exists>t \<in> set (f_tables f). length t < 4 then Inl AssertionFailed
            else Inr (response_of_frame f))"
  unfolding InvocationResponse_parse_def SharedByteBuffer_of_frame
  using read_encode_frame_general [OF assms, of extra]
  by simp

lemma well_formed_no_null: "well_formed_frame f \<Longrightarrow> \<not> null_string_present f"
  by (auto simp add: well_formed_frame_def null_string_present_def)

lemma parse_encode_frame:
  assumes "well_formed_frame f"
  shows "InvocationResponse_parse (encode_frame f @ extra) (int (length (encode_frame f)))
         = Inr (response_of_frame f)"
proof -
  have "\<not> (\<exists>t \<in> set (f_tables f). length t < 4)"
    using assms by (auto simp add: well_formed_frame_def)
  then show ?thesis
    using assms parse_encode_frame_general [of f extra] well_formed_no_null [OF assms]
    by (simp add: well_formed_frame_def)
qed

section \<open>What a successful parse implies\<close>

lemma and_then_Inr_iff: "(and_then m f = Inr y) = (\<exists>x. m = Inr x \<and> f x = Inr y)"
  by (cases m) simp_all

lemma getBytes_Inr:
  assumes "getBytes len b = Inr (bs, b')"
  shows "0 \<le> len \<and> m_position b + nat len \<le> m_limit b
         \<and> bs = take (nat len) (drop (m_position b) (m_buffer b))
         \<and> b' = b\<lparr>m_position := m_position b + nat len\<rparr>"
  using assms
  by (auto simp add: getBytes_def checkGetPutIndex_def split: if_splits)

lemma getInt8_Inr:
  assumes "getInt8 b = Inr (v, b')"
  shows "m_position b < m_limit b \<and> b' = b\<lparr>m_position := m_position b + 1\<rparr>
         \<and> (m_limit b \<le> length (m_buffer b) \<longrightarrow> v = m_buffer b ! m_position b)"
proof -
  obtain bs where g: "getBytes 1 b = Inr (bs, b')" and v: "v = word_of_be bs"
    using assms by (auto simp add: getInt8_def and_then_Inr_iff)
  from getBytes_Inr [OF g]
  have p: "m_position b + 1 \<le> m_limit b"
    and bs: "bs = take 1 (drop (m_position b) (m_buffer b))"
    and b': "b' = b\<lparr>m_position := m_position b + 1\<rparr>"
    by simp_all
  have "v = m_buffer b ! m_position b" if "m_limit b \<le> length (m_buffer b)"
  proof -
    have "m_position b < length (m_buffer b)"
      using p that by simp
    then have "bs = [m_buffer b ! m_position b]"
      unfolding bs by (simp add: take_Suc_conv_app_nth [of 0] Cons_nth_drop_Suc [symmetric])
    then show ?thesis
      using v by simp
  qed
  then show ?thesis
    using p b' by simp
qed

lemma getInt16_Inr:
  assumes "getInt16 b = Inr (v, b')"
  shows "m_position b + 2 \<le> m_limit b \<and> b' = b\<lparr>m_position := m_position b + 2\<rparr>
     \<and> v = word_of_be (take 2 (drop (m_position b) (m_buffer b)))"
  using assms getBytes_Inr [of 2 b]
  by (auto simp add: getInt16_def and_then_Inr_iff)

lemma getInt32_Inr:
  assumes "getInt32 b = Inr (v, b')"
  shows "m_position b + 4 \<le> m_limit b \<and> b' = b\<lparr>m_position := m_position b + 4\<rparr>
     \<and> v = word_of_be (take 4 (drop (m_position b) (m_buffer b)))"
  using assms getBytes_Inr [of 4 b]
  by (auto simp add: getInt32_def and_then_Inr_iff)

lemma getInt64_Inr:
  assumes "getInt64 b = Inr (v, b')"
  shows "m_position b + 8 \<le> m_limit b \<and> b' = b\<lparr>m_position := m_position b + 8\<rparr>
     \<and> v = word_of_be (take 8 (drop (m_position b) (m_buffer b)))"
  using assms getBytes_Inr [of 8 b]
  by (auto simp add: getInt64_def and_then_Inr_iff)

lemma read_table_Inr:
  assumes "read_table startLimit b = Inr (Table s, b')"
  shows "\<exists>tableLength b1. getInt32 b = Inr (tableLength, b1)
           \<and> 4 \<le> sint tableLength
           \<and> m_buffer s = take (nat (sint tableLength)) (drop (m_position b + 4) (m_buffer b))
           \<and> m_position s = 0
           \<and> m_limit s = nat (sint tableLength)
           \<and> m_capacity s = nat (sint tableLength)
           \<and> m_position b' = m_position b + 4 + nat (sint tableLength)
           \<and> m_limit b' = startLimit"
proof -
  from assms obtain tableLength b1 where
    g: "getInt32 b = Inr (tableLength, b1)" and ge: "4 \<le> sint tableLength"
    and rest: "and_then (add_int32 (int (m_position b1)) (sint tableLength))
              (\<lambda>newLimit.
                 and_then (limit_set newLimit b1)
                   (\<lambda>buffer.
                      case slice buffer of
                        (s, buffer) \<Rightarrow>
                          and_then (limit_set (int startLimit) buffer)
                            (\<lambda>buffer. Inr (Table s, buffer)))) = Inr (Table s, b')"
    unfolding read_table_def
    by (auto simp add: and_then_Inr_iff split: if_splits)
  from getInt32_Inr [OF g] have b1: "b1 = b\<lparr>m_position := m_position b + 4\<rparr>"
    by simp
  from rest ge show ?thesis
    unfolding b1
    by (auto simp add: g b1 and_then_Inr_iff add_int32_def limit_set_def slice_def
        nat_add_distrib split: if_splits)
qed

lemma read_tables_Inr:
  assumes "read_tables n startLimit b = Inr (ts, b')"
  shows "length ts = n \<and> (\<forall>t \<in> set ts. case t of Table s \<Rightarrow> 4 \<le> m_limit s)"
  using assms
proof (induction n arbitrary: b ts)
  case 0
  then show ?case by simp
next
  case (Suc n)
  from Suc.prems obtain t b1 ts' where
    one: "read_table startLimit b = Inr (t, b1)"
    and more: "read_tables n startLimit b1 = Inr (ts', b')"
    and ts: "ts = t # ts'"
    by (auto simp add: and_then_Inr_iff)
  obtain s where t: "t = Table s"
    by (cases t)
  from read_table_Inr [OF one [unfolded t]] have "4 \<le> m_limit s"
    by auto
  with Suc.IH [OF more] ts t show ?case
    by simp
qed

lemma vector_resize_Inr: "vector_resize n = Inr u \<Longrightarrow> n \<le> vector_max_size"
  by (simp add: vector_resize_def split: if_splits)

lemma if_Inl_eq_Inr: "((if c then Inl e else m) = Inr y) = (\<not> c \<and> m = Inr y)"
  by simp

lemma read_InrE:
  assumes "InvocationResponse_read buffer = Inr (r, b11)"
  obtains version b1 clientData b2 pf b3 statusCode b4 ss w b5 appStatusCode b6
    ass w' b7 rtt b8 b9 count b10 rs
  where "getInt8 buffer = Inr (version, b1)"
    and "version = 0"
    and "getInt64 b1 = Inr (clientData, b2)"
    and "getInt8 b2 = Inr (pf, b3)"
    and "getInt8 b3 = Inr (statusCode, b4)"
    and "(if field_present pf 5 then getString False b4 else Inr (('''', False), b4))
           = Inr ((ss, w), b5)"
    and "getInt8 b5 = Inr (appStatusCode, b6)"
    and "(if field_present pf 7 then getString w b6 else Inr (('''', w), b6))
           = Inr ((ass, w'), b7)"
    and "\<not> w'"
    and "getInt32 b7 = Inr (rtt, b8)"
    and "(if field_present pf 6 then skip_exception b8 else Inr b8) = Inr b9"
    and "getInt16 b9 = Inr (count, b10)"
    and "vector_resize (unat (scast count :: 64 word)) = Inr ()"
    and "read_tables (unat (scast count :: 64 word)) (m_limit b10) b10 = Inr (rs, b11)"
    and "r = \<lparr> m_clientData = clientData, m_statusCode = statusCode, m_statusString = ss,
               m_appStatusCode = appStatusCode, m_appStatusString = ass,
               m_clusterRoundTripTime = rtt, m_results = rs \<rparr>"
  using assms unfolding InvocationResponse_read_def
  apply (simp only: and_then_Inr_iff if_Inl_eq_Inr split_paired_Ex prod.case sum.inject
      prod.inject not_not)
  apply (elim exE conjE)
  apply (rule that; (assumption | erule sym | simp)?)
  done

lemma parse_InrE:
  assumes "InvocationResponse_parse data len = Inr r"
  obtains b11 where "0 \<le> len" and "nat len \<le> length data"
    and "InvocationResponse_read
           \<lparr> m_buffer = data, m_position = 0, m_limit = nat len, m_capacity = nat len \<rparr>
         = Inr (r, b11)"
  using assms unfolding InvocationResponse_parse_def
  by (auto simp add: and_then_Inr_iff SharedByteBuffer_of_def split: if_splits)

lemma parse_Inr_header:
  assumes "InvocationResponse_parse data len = Inr r"
  shows "0 < len \<and> nat len \<le> length data \<and> data ! 0 = 0"
proof -
  from assms obtain b11 where len: "0 \<le> len" "nat len \<le> length data"
    and rd: "InvocationResponse_read
           \<lparr> m_buffer = data, m_position = 0, m_limit = nat len, m_capacity = nat len \<rparr>
         = Inr (r, b11)"
    by (rule parse_InrE)
  from rd obtain version b1 where
    g: "getInt8 \<lparr> m_buffer = data, m_position = 0, m_limit = nat len, m_capacity = nat len \<rparr>
          = Inr (version, b1)" and v: "version = 0"
    by (rule read_InrE)
  from getInt8_Inr [OF g] len v show ?thesis
    by simp
qed

lemma parse_Inr_tables:
  assumes "InvocationResponse_parse data len = Inr r"
  shows "length (m_results r) < 2 ^ 15
         \<and> (\<forall>t \<in> set (m_results r). case t of Table s \<Rightarrow> 4 \<le> m_limit s)"
proof -
  from assms obtain buffer b11 where rd: "InvocationResponse_read buffer = Inr (r, b11)"
    by (rule parse_InrE)
  from rd obtain count :: "16 word" and b10 where
    rs: "vector_resize (unat (scast count :: 64 word)) = Inr ()"
    and rt: "read_tables (unat (scast count :: 64 word)) (m_limit b10) b10
               = Inr (m_results r, b11)"
    by (elim read_InrE) simp
  have nn: "0 \<le> sint count"
    using vector_resize_Inr [OF rs] by (rule count_of_negative)
  have "unat (scast count :: 64 word) = nat (sint count)"
    using nn by (rule unat_scast_count)
  moreover have "sint count < 32768"
    using sint_lt [of count] by simp
  ultimately have "unat (scast count :: 64 word) < 2 ^ 15"
    using nn by simp
  with read_tables_Inr [OF rt] show ?thesis
    by simp
qed

lemma parse_Inr_absent_strings:
  assumes "InvocationResponse_parse data len = Inr r"
  shows "9 < nat len \<and> nat len \<le> length data
         \<and> (\<not> bit (data ! 9) 5 \<longrightarrow> m_statusString r = '''')
         \<and> (\<not> bit (data ! 9) 7 \<longrightarrow> m_appStatusString r = '''')"
proof -
  define buffer where "buffer =
    \<lparr> m_buffer = data, m_position = 0, m_limit = nat len, m_capacity = nat len \<rparr>"
  from assms obtain b11 where len: "nat len \<le> length data"
    and rd: "InvocationResponse_read buffer = Inr (r, b11)"
    unfolding buffer_def by (rule parse_InrE)
  from rd obtain version b1 clientData b2 pf b3 b4 ss w b5 b6 ass w' b7
    where g1: "getInt8 buffer = Inr (version, b1)"
    and g2: "getInt64 b1 = Inr (clientData, b2)"
    and g3: "getInt8 b2 = Inr (pf, b3)"
    and s1: "(if field_present pf 5 then getString False b4 else Inr (('''', False), b4))
           = Inr ((ss, w), b5)"
    and s2: "(if field_present pf 7 then getString w b6 else Inr (('''', w), b6))
           = Inr ((ass, w'), b7)"
    and r1: "m_statusString r = ss" and r2: "m_appStatusString r = ass"
    by (elim read_InrE) simp
  from getInt8_Inr [OF g1] have b1: "b1 = buffer\<lparr>m_position := 1\<rparr>"
    by (simp add: buffer_def)
  from getInt64_Inr [OF g2] have b2: "b2 = buffer\<lparr>m_position := 9\<rparr>"
    by (simp add: b1 buffer_def)
  from getInt8_Inr [OF g3] len have pf: "pf = data ! 9" and n9: "9 < nat len"
    by (simp_all add: b2 buffer_def)
  have "ss = ''''" if "\<not> bit (data ! 9) 5"
    using s1 that by (simp add: field_present_iff pf)
  moreover have "ass = ''''" if "\<not> bit (data ! 9) 7"
    using s2 that by (simp add: field_present_iff pf)
  ultimately show ?thesis
    using r1 r2 n9 len by simp
qed

section \<open>A frame cut short\<close>

lemma getBytes_narrowed:
  assumes "getBytes len b = Inr (bs, b')" and "narrowed L n b c" and "L \<le> n"
  shows "\<exists>c'. getBytes len c = Inr (bs, c') \<and> narrowed L n b' c'"
  using assms
  by (auto simp add: getBytes_def checkGetPutIndex_def narrowed_def split: if_splits)

lemma getInt8_narrowed:
  assumes "getInt8 b = Inr (v, b')" and "narrowed L n b c" and "L \<le> n"
  shows "\<exists>c'. getInt8 c = Inr (v, c') \<and> narrowed L n b' c'"
proof -
  from assms(1) obtain bs where g: "getBytes 1 b = Inr (bs, b')" and v: "v = word_of_be bs"
    by (auto simp add: getInt8_def and_then_Inr_iff)
  from getBytes_narrowed [OF g assms(2,3)] v show ?thesis
    by (auto simp add: getInt8_def)
qed

lemma getInt16_narrowed:
  assumes "getInt16 b = Inr (v, b')" and "narrowed L n b c" and "L \<le> n"
  shows "\<exists>c'. getInt16 c = Inr (v, c') \<and> narrowed L n b' c'"
proof -
  from assms(1) obtain bs where g: "getBytes 2 b = Inr (bs, b')" and v: "v = word_of_be bs"
    by (auto simp add: getInt16_def and_then_Inr_iff)
  from getBytes_narrowed [OF g assms(2,3)] v show ?thesis
    by (auto simp add: getInt16_def)
qed

lemma getInt32_narrowed:
  assumes "getInt32 b = Inr (v, b')" and "narrowed L n b c" and "L \<le> n"
  shows "\<exists>c'. getInt32 c = Inr (v, c') \<and> narrowed L n b' c'"
proof -
  from assms(1) obtain bs where g: "getBytes 4 b = Inr (bs, b')" and v: "v = word_of_be bs"
    by (auto simp add: getInt32_def and_then_Inr_iff)
  from getBytes_narrowed [OF g assms(2,3)] v show ?thesis
    by (auto simp add: getInt32_def)
qed

lemma getInt64_narrowed:
  assumes "getInt64 b = Inr (v, b')" and "narrowed L n b c" and "L \<le> n"
  shows "\<exists>c'. getInt64 c = Inr (v, c') \<and> narrowed L n b' c'"
proof -
  from assms(1) obtain bs where g: "getBytes 8 b = Inr (bs, b')" and v: "v = word_of_be bs"
    by (auto simp add: getInt64_def and_then_Inr_iff)
  from getBytes_narrowed [OF g assms(2,3)] v show ?thesis
    by (auto simp add: getInt64_def)
qed

lemma getString_narrowed:
  assumes "getString w b = Inr (sw, b')" and "narrowed L n b c" and "L \<le> n"
  shows "\<exists>c'. getString w c = Inr (sw, c') \<and> narrowed L n b' c'"
proof -
  from assms(1) obtain len b1 where g: "getInt32 b = Inr (len, b1)"
    and rest: "(if sint len = - 1 then Inr (('''', True), b1)
          else and_then (getBytes (sint len) b1)
                 (\<lambda>(bs, b2). Inr ((map char_of_byte bs, w), b2))) = Inr (sw, b')"
    by (auto simp add: getString_def and_then_Inr_iff)
  from getInt32_narrowed [OF g assms(2,3)] obtain c1 where
    gc: "getInt32 c = Inr (len, c1)" and n1: "narrowed L n b1 c1"
    by blast
  show ?thesis
  proof (cases "sint len = - 1")
    case True
    with rest gc n1 show ?thesis
      by (auto simp add: getString_def)
  next
    case False
    with rest obtain bs where gb: "getBytes (sint len) b1 = Inr (bs, b')"
      and sw: "sw = (map char_of_byte bs, w)"
      by (auto simp add: and_then_Inr_iff)
    from getBytes_narrowed [OF gb n1 assms(3)] sw False gc show ?thesis
      by (auto simp add: getString_def)
  qed
qed

lemma skip_exception_narrowed:
  assumes "skip_exception b = Inr b'" and "narrowed L n b c" and "L \<le> n"
  shows "\<exists>c'. skip_exception c = Inr c' \<and> narrowed L n b' c'"
proof -
  from assms(1) obtain position len b1 p where
    a1: "add_int32 (int (m_position b)) 4 = Inr position"
    and g: "getInt32 b = Inr (len, b1)"
    and a2: "add_int32 position (sint len) = Inr p"
    and ps: "position_set p b1 = Inr b'"
    by (auto simp add: skip_exception_def and_then_Inr_iff)
  from getInt32_narrowed [OF g assms(2,3)] obtain c1 where
    gc: "getInt32 c = Inr (len, c1)" and n1: "narrowed L n b1 c1"
    by blast
  have pos: "m_position c = m_position b"
    using assms(2) by (simp add: narrowed_def)
  from ps n1 assms(3) obtain c' where pc: "position_set p c1 = Inr c'"
    and n2: "narrowed L n b' c'"
    by (auto simp add: position_set_def narrowed_def split: if_splits)
  show ?thesis
    using a1 a2 gc pc n2 by (auto simp add: skip_exception_def pos)
qed

lemma read_table_narrowed:
  assumes "read_table L b = Inr (t, b')" and "narrowed L n b c" and "L \<le> n"
  shows "\<exists>c'. read_table n c = Inr (t, c') \<and> narrowed L n b' c'"
proof -
  from assms(1) obtain tableLength b1 where
    g: "getInt32 b = Inr (tableLength, b1)" and ge: "4 \<le> sint tableLength"
    and rest: "and_then (add_int32 (int (m_position b1)) (sint tableLength))
              (\<lambda>newLimit.
                 and_then (limit_set newLimit b1)
                   (\<lambda>buffer.
                      case slice buffer of
                        (s, buffer) \<Rightarrow>
                          and_then (limit_set (int L) buffer)
                            (\<lambda>buffer. Inr (Table s, buffer)))) = Inr (t, b')"
    unfolding read_table_def
    by (auto simp add: and_then_Inr_iff split: if_splits)
  from getInt32_narrowed [OF g assms(2,3)] obtain c1 where
    gc: "getInt32 c = Inr (tableLength, c1)" and n1: "narrowed L n b1 c1"
    by blast
  from rest ge n1 assms(3) have
    "\<exists>c'. and_then (add_int32 (int (m_position c1)) (sint tableLength))
              (\<lambda>newLimit.
                 and_then (limit_set newLimit c1)
                   (\<lambda>buffer.
                      case slice buffer of
                        (s, buffer) \<Rightarrow>
                          and_then (limit_set (int n) buffer)
                            (\<lambda>buffer. Inr (Table s, buffer)))) = Inr (t, c')
        \<and> narrowed L n b' c'"
    by (auto simp add: and_then_Inr_iff add_int32_def limit_set_def slice_def narrowed_def
        split: if_splits)
  then show ?thesis
    unfolding read_table_def using gc ge by auto
qed

lemma read_tables_narrowed:
  assumes "read_tables k L b = Inr (ts, b')" and "narrowed L n b c" and "L \<le> n"
  shows "\<exists>c'. read_tables k n c = Inr (ts, c') \<and> narrowed L n b' c'"
  using assms
proof (induction k arbitrary: b c ts)
  case 0
  then show ?case by auto
next
  case (Suc k)
  from Suc.prems(1) obtain t b1 ts' where
    one: "read_table L b = Inr (t, b1)"
    and more: "read_tables k L b1 = Inr (ts', b')"
    and ts: "ts = t # ts'"
    by (auto simp add: and_then_Inr_iff)
  from read_table_narrowed [OF one Suc.prems(2,3)] obtain c1 where
    onec: "read_table n c = Inr (t, c1)" and n1: "narrowed L n b1 c1"
    by blast
  from Suc.IH [OF more n1 Suc.prems(3)] obtain c' where
    "read_tables k n c1 = Inr (ts', c')" and "narrowed L n b' c'"
    by blast
  then show ?case
    using onec ts by auto
qed

lemma read_narrowed:
  assumes rd: "InvocationResponse_read b = Inr (r, b')" and nw: "narrowed L n b c"
    and le: "L \<le> n"
  shows "\<exists>c'. InvocationResponse_read c = Inr (r, c') \<and> narrowed L n b' c'"
proof -
  from rd obtain version b1 clientData b2 pf b3 statusCode b4 ss w b5 appStatusCode b6
    ass w' b7 rtt b8 b9 count b10 rs
    where g1: "getInt8 b = Inr (version, b1)"
    and v: "version = 0"
    and g2: "getInt64 b1 = Inr (clientData, b2)"
    and g3: "getInt8 b2 = Inr (pf, b3)"
    and g4: "getInt8 b3 = Inr (statusCode, b4)"
    and s1: "(if field_present pf 5 then getString False b4 else Inr (('''', False), b4))
           = Inr ((ss, w), b5)"
    and g5: "getInt8 b5 = Inr (appStatusCode, b6)"
    and s2: "(if field_present pf 7 then getString w b6 else Inr (('''', w), b6))
           = Inr ((ass, w'), b7)"
    and nw': "\<not> w'"
    and g6: "getInt32 b7 = Inr (rtt, b8)"
    and e: "(if field_present pf 6 then skip_exception b8 else Inr b8) = Inr b9"
    and g7: "getInt16 b9 = Inr (count, b10)"
    and rz: "vector_resize (unat (scast count :: 64 word)) = Inr ()"
    and rt: "read_tables (unat (scast count :: 64 word)) (m_limit b10) b10 = Inr (rs, b')"
    and r: "r = \<lparr> m_clientData = clientData, m_statusCode = statusCode, m_statusString = ss,
               m_appStatusCode = appStatusCode, m_appStatusString = ass,
               m_clusterRoundTripTime = rtt, m_results = rs \<rparr>"
    by (rule read_InrE)
  from getInt8_narrowed [OF g1 nw le] obtain c1 where
    h1: "getInt8 c = Inr (version, c1)" and n1: "narrowed L n b1 c1" by blast
  from getInt64_narrowed [OF g2 n1 le] obtain c2 where
    h2: "getInt64 c1 = Inr (clientData, c2)" and n2: "narrowed L n b2 c2" by blast
  from getInt8_narrowed [OF g3 n2 le] obtain c3 where
    h3: "getInt8 c2 = Inr (pf, c3)" and n3: "narrowed L n b3 c3" by blast
  from getInt8_narrowed [OF g4 n3 le] obtain c4 where
    h4: "getInt8 c3 = Inr (statusCode, c4)" and n4: "narrowed L n b4 c4" by blast
  have "\<exists>c5. (if field_present pf 5 then getString False c4 else Inr (('''', False), c4))
           = Inr ((ss, w), c5) \<and> narrowed L n b5 c5"
  proof (cases "field_present pf 5")
    case True
    with s1 getString_narrowed [OF _ n4 le, of False "(ss, w)" b5] show ?thesis by simp
  next
    case False
    with s1 n4 show ?thesis by auto
  qed
  then obtain c5 where
    t1: "(if field_present pf 5 then getString False c4 else Inr (('''', False), c4))
           = Inr ((ss, w), c5)" and n5: "narrowed L n b5 c5" by blast
  from getInt8_narrowed [OF g5 n5 le] obtain c6 where
    h5: "getInt8 c5 = Inr (appStatusCode, c6)" and n6: "narrowed L n b6 c6" by blast
  have "\<exists>c7. (if field_present pf 7 then getString w c6 else Inr (('''', w), c6))
           = Inr ((ass, w'), c7) \<and> narrowed L n b7 c7"
  proof (cases "field_present pf 7")
    case True
    with s2 getString_narrowed [OF _ n6 le, of w "(ass, w')" b7] show ?thesis by simp
  next
    case False
    with s2 n6 show ?thesis by auto
  qed
  then obtain c7 where
    t2: "(if field_present pf 7 then getString w c6 else Inr (('''', w), c6))
           = Inr ((ass, w'), c7)" and n7: "narrowed L n b7 c7" by blast
  from getInt32_narrowed [OF g6 n7 le] obtain c8 where
    h6: "getInt32 c7 = Inr (rtt, c8)" and n8: "narrowed L n b8 c8" by blast
  have "\<exists>c9. (if field_present pf 6 then skip_exception c8 else Inr c8) = Inr c9
           \<and> narrowed L n b9 c9"
  proof (cases "field_present pf 6")
    case True
    with e skip_exception_narrowed [OF _ n8 le, of b9] show ?thesis by simp
  next
    case False
    with e n8 show ?thesis by auto
  qed
  then obtain c9 where
    f: "(if field_present pf 6 then skip_exception c8 else Inr c8) = Inr c9"
    and n9: "narrowed L n b9 c9" by blast
  from getInt16_narrowed [OF g7 n9 le] obtain c10 where
    h7: "getInt16 c9 = Inr (count, c10)" and n10: "narrowed L n b10 c10" by blast
  have lb: "m_limit b10 = L" and lc: "m_limit c10 = n"
    using n10 by (simp_all add: narrowed_def)
  from read_tables_narrowed [OF rt [unfolded lb] n10 le] obtain c' where
    ru: "read_tables (unat (scast count :: 64 word)) n c10 = Inr (rs, c')"
    and n11: "narrowed L n b' c'" by blast
  have "InvocationResponse_read c = Inr (r, c')"
    unfolding InvocationResponse_read_def
    by (simp add: h1 v h2 h3 h4 t1 h5 t2 nw' h6 f h7 rz lc ru r del: if_split
        cong: if_cong)
  with n11 show ?thesis
    by blast
qed

lemma parse_truncated_frame:
  assumes wf: "well_formed_frame f" and short: "len < int (length (encode_frame f))"
  shows "\<exists>e. InvocationResponse_parse (encode_frame f @ extra) len = Inl e"
proof (cases "InvocationResponse_parse (encode_frame f @ extra) len")
  case (Inl e)
  then show ?thesis by blast
next
  case (Inr r)
  define n where "n = length (encode_frame f)"
  define b where "b = \<lparr> m_buffer = encode_frame f @ extra, m_position = 0,
    m_limit = nat len, m_capacity = nat len \<rparr>"
  from Inr obtain b11 where len: "0 \<le> len"
    and rd: "InvocationResponse_read b = Inr (r, b11)"
    unfolding b_def by (rule parse_InrE)
  have le: "nat len \<le> n"
    using short by (simp add: n_def)
  have nw: "narrowed (nat len) n b (buffer_at [] (encode_frame f) extra n)"
    by (simp add: narrowed_def b_def buffer_at_def n_def)
  from read_narrowed [OF rd nw le] obtain c' where
    rc: "InvocationResponse_read (buffer_at [] (encode_frame f) extra n) = Inr (r, c')"
    and n11: "narrowed (nat len) n b11 c'"
    by blast
  have "\<not> (\<exists>t \<in> set (f_tables f). length t < 4)"
    using wf by (auto simp add: well_formed_frame_def)
  then have "InvocationResponse_read (buffer_at [] (encode_frame f) extra n)
      = Inr (response_of_frame f, buffer_at (encode_frame f) [] extra n)"
    using wf read_encode_frame_general [of f extra] well_formed_no_null [OF wf]
    by (simp add: well_formed_frame_def n_def)
  with rc have "c' = buffer_at (encode_frame f) [] extra n"
    by simp
  then have "m_position c' = n"
    by (simp add: buffer_at_def n_def)
  moreover have "m_position c' \<le> nat len"
    using n11 by (simp add: narrowed_def)
  ultimately show ?thesis
    using short len by (simp add: n_def)
qed

section \<open>Writing a response to a stream and reading it back\<close>

lemma word_of_native_of_word:
  "LENGTH('a) \<le> 8 * n \<Longrightarrow> word_of_native order (native_of_word order n w) = (w :: 'a::len word)"
  by (cases order) (simp_all add: word_of_native_def native_of_word_def word_of_be_of_word)

lemma length_native_of_word [simp]: "length (native_of_word order n w) = n"
  by (cases order) (simp_all add: native_of_word_def)

lemma istream_read_append:
  "n = length xs \<Longrightarrow> istream_read n (xs @ rest) = Inr (xs, rest)"
  by (simp add: istream_read_def)

lemma byte_of_char_inverse: "map char_of_byte (map byte_of_char s) = s"
  by (simp add: comp_def)

lemma writeString_append: "writeString order s os = os @ writeString order s []"
  by (simp add: writeString_def ostream_write_def Let_def)

lemma readString_writeString:
  assumes "length s < 2 ^ 31"
  shows "readString order (writeString order s [] @ rest) = Inr (s, rest)"
proof -
  define sz :: "32 word" where "sz = word_of_nat (length s)"
  have sint: "sint sz = int (length s)"
    using assms by (simp add: sz_def sint_length32)
  have zero: "(sz = 0) = (s = [])"
  proof
    assume "sz = 0"
    then have "sint sz = 0" by simp
    then show "s = []" using sint by simp
  next
    assume "s = []"
    then show "sz = 0" by (simp add: sz_def)
  qed
  have w: "writeString order s [] =
      native_of_word order 4 sz @ (if s = [] then [] else map byte_of_char s)"
    by (simp add: writeString_def ostream_write_def Let_def sz_def [symmetric] zero sint)
  show ?thesis
  proof (cases "s = []")
    case True
    then show ?thesis
      unfolding w readString_def
      by (simp add: istream_read_append word_of_native_of_word zero)
  next
    case False
    have rd: "istream_read (length s) (map byte_of_char s @ rest)
        = Inr (map byte_of_char s, rest)"
      by (simp add: istream_read_append)
    show ?thesis
      unfolding w readString_def
      using False
      by (simp add: istream_read_append word_of_native_of_word zero sint rd comp_def)
  qed
qed

lemma write_tables_append:
  "write_tables table_out ts os = os @ concat (map table_out ts)"
  by (induction ts arbitrary: os) (simp_all add: ostream_write_def)

lemma read_tables_stream_concat:
  assumes "\<forall>t \<in> set ts. \<forall>rest. \<exists>t'. table_in (table_out t @ rest) = Inr (t', rest)"
  shows "\<exists>ts'. read_tables_stream table_in (length ts) (concat (map table_out ts) @ rest)
                 = Inr (ts', rest) \<and> length ts' = length ts"
  using assms
proof (induction ts)
  case Nil
  then show ?case by simp
next
  case (Cons t ts)
  from Cons.prems obtain t' where
    one: "table_in (table_out t @ concat (map table_out ts) @ rest)
            = Inr (t', concat (map table_out ts) @ rest)"
    by fastforce
  from Cons.IH Cons.prems obtain ts' where
    more: "read_tables_stream table_in (length ts) (concat (map table_out ts) @ rest)
             = Inr (ts', rest)" and len: "length ts' = length ts"
    by auto
  show ?case
    by (simp add: one more len)
qed

lemma unat_length64: "n < 2 ^ 64 \<Longrightarrow> unat (word_of_nat n :: 64 word) = n"
  by (simp add: unat_of_nat)

text \<open>
  Reading back what \<open>operator >>\<close> wrote gives the fields written, and as many tables,
  if the strings are shorter than \<open>2^31\<close> bytes and each table can be read back from
  what it wrote.
\<close>

lemma read_write_stream:
  assumes s1: "length (m_statusString r) < 2 ^ 31"
    and s2: "length (m_appStatusString r) < 2 ^ 31"
    and sz: "length (m_results r) \<le> vector_max_size"
    and tbl: "\<forall>t \<in> set (m_results r). \<forall>rest.
        \<exists>t'. table_in (table_out t @ rest) = Inr (t', rest)"
  shows "\<exists>ts'. InvocationResponse_of_istream order table_in
           (operator_rshift order table_out r [] @ rest) = Inr (r\<lparr>m_results := ts'\<rparr>, rest)
         \<and> length ts' = length (m_results r)"
proof -
  have out: "operator_rshift order table_out r [] =
      native_of_word order 1 (m_statusCode r)
      @ writeString order (m_statusString r) []
      @ native_of_word order 1 (m_appStatusCode r)
      @ writeString order (m_appStatusString r) []
      @ native_of_word order 8 (m_clientData r)
      @ native_of_word order 4 (m_clusterRoundTripTime r)
      @ native_of_word order 8 (word_of_nat (length (m_results r)) :: 64 word)
      @ concat (map table_out (m_results r))"
    unfolding operator_rshift_def Let_def ostream_write_def write_tables_append
    by (simp add: writeString_append [of _ _ "_ @ _"]
        writeString_append [of _ _ "native_of_word _ _ _"])
  have n64: "unat (word_of_nat (length (m_results r)) :: 64 word) = length (m_results r)"
    using sz by (intro unat_length64) (simp add: vector_max_size_def)
  have rsz: "vector_resize (length (m_results r)) = Inr ()"
    using sz by (simp add: vector_resize_def)
  from read_tables_stream_concat [OF tbl, of rest] obtain ts' where
    rt: "read_tables_stream table_in (length (m_results r))
           (concat (map table_out (m_results r)) @ rest) = Inr (ts', rest)"
    and len: "length ts' = length (m_results r)"
    by blast
  have "InvocationResponse_of_istream order table_in
           (operator_rshift order table_out r [] @ rest) = Inr (r\<lparr>m_results := ts'\<rparr>, rest)"
    unfolding out InvocationResponse_of_istream_def
    by (simp add: istream_read_append word_of_native_of_word readString_writeString [OF s1]
        readString_writeString [OF s2] n64 rsz rt)
  with len show ?thesis
    by blast
qed

lemma getString_Inr_length:
  assumes "getString w b = Inr ((s, w'), b')"
  shows "length s < 2 ^ 31"
proof -
  from assms obtain len :: "32 word" and b1 where
    rest: "(if sint len = - 1 then Inr (('''', True), b1)
          else and_then (getBytes (sint len) b1)
                 (\<lambda>(bs, b2). Inr ((map char_of_byte bs, w), b2))) = Inr ((s, w'), b')"
    by (auto simp add: getString_def and_then_Inr_iff)
  have lt: "sint (len :: 32 word) < 2 ^ 31"
    using sint_lt [of len] by simp
  show ?thesis
  proof (cases "sint len = - 1")
    case True
    with rest show ?thesis by simp
  next
    case False
    with rest obtain bs where g: "getBytes (sint len) b1 = Inr (bs, b')"
      and s: "s = map char_of_byte bs"
      by (auto simp add: and_then_Inr_iff)
    from getBytes_Inr [OF g] have "length bs \<le> nat (sint len)"
      by simp
    with lt s show ?thesis
      by simp
  qed
qed

lemma parse_Inr_string_lengths:
  assumes "InvocationResponse_parse data len = Inr r"
  shows "length (m_statusString r) < 2 ^ 31 \<and> length (m_appStatusString r) < 2 ^ 31"
proof -
  from assms obtain buffer b11 where rd: "InvocationResponse_read buffer = Inr (r, b11)"
    by (rule parse_InrE)
  from rd obtain pf b4 ss w b5 b6 ass w' b7
    where s1: "(if field_present pf 5 then getString False b4 else Inr (('''', False), b4))
           = Inr ((ss, w), b5)"
    and s2: "(if field_present pf 7 then getString w b6 else Inr (('''', w), b6))
           = Inr ((ass, w'), b7)"
    and r1: "m_statusString r = ss" and r2: "m_appStatusString r = ass"
    by (elim read_InrE) simp
  have "length ss < 2 ^ 31"
    using s1 getString_Inr_length [of False b4 ss w b5]
    by (cases "field_present pf 5") auto
  moreover have "length ass < 2 ^ 31"
    using s2 getString_Inr_length [of w b6 ass w' b7]
    by (cases "field_present pf 7") auto
  ultimately show ?thesis
    using r1 r2 by simp
qed

lemma readString_Inr_length:
  assumes "readString order is = Inr (s, is')"
  shows "length s < 2 ^ 31"
proof -
  from assms obtain bs is1 where
    rest: "(case (word_of_native order bs :: 32 word) of sz \<Rightarrow>
            if sz \<noteq> 0
            then if sint sz < 0 then Inl LengthError
                 else and_then (istream_read (nat (sint sz)) is1)
                        (\<lambda>(cs, is). Inr (map char_of_byte cs, is))
            else Inr ('''', is1)) = Inr (s, is')"
    by (auto simp add: readString_def and_then_Inr_iff)
  define sz :: "32 word" where "sz = word_of_native order bs"
  have lt: "sint sz < 2 ^ 31"
    using sint_lt [of sz] by simp
  show ?thesis
  proof (cases "sz = 0")
    case True
    with rest show ?thesis by (simp add: sz_def)
  next
    case False
    with rest obtain cs where "istream_read (nat (sint sz)) is1 = Inr (cs, is')"
      and s: "s = map char_of_byte cs"
      by (auto simp add: sz_def and_then_Inr_iff split: if_splits)
    then have "length cs \<le> nat (sint sz)"
      by (auto simp add: istream_read_def split: if_splits)
    with lt s show ?thesis
      by simp
  qed
qed

lemma of_istream_Inr_string_lengths:
  assumes "InvocationResponse_of_istream order table_in is = Inr (r, is')"
  shows "length (m_statusString r) < 2 ^ 31 \<and> length (m_appStatusString r) < 2 ^ 31"
proof -
  from assms obtain is1 ss is2 is3 ass is4 where
    "readString order is1 = Inr (ss, is2)" and "readString order is3 = Inr (ass, is4)"
    and "m_statusString r = ss" and "m_appStatusString r = ass"
    unfolding InvocationResponse_of_istream_def
    apply (simp only: and_then_Inr_iff split_paired_Ex prod.case sum.inject prod.inject Let_def)
    apply (elim exE conjE)
    apply (drule sym [of _ r])
    apply simp
    done
  then show ?thesis
    using readString_Inr_length by auto
qed

lemma example_table_round_trip:
  assumes "length t < 2 ^ 32"
  shows "example_table_in (example_table_out (table_of_bytes t) @ rest)
         = Inr (table_of_bytes t, rest)"
proof -
  have "unat (word_of_nat (length t) :: 32 word) = length t"
    using assms by (simp add: unat_of_nat)
  then show ?thesis
    by (simp add: example_table_in_def example_table_out_def table_of_bytes_def
        istream_read_append word_of_be_of_word)
qed

section \<open>Evaluating the parser on concrete bytes\<close>

lemma getBytes_eval:
  "getBytes len \<lparr> m_buffer = bs, m_position = p, m_limit = l, m_capacity = c \<rparr>
     = (if int l - int p < len \<or> len < 0 then Inl Overrun
        else Inr (take (nat len) (drop p bs),
                  \<lparr> m_buffer = bs, m_position = p + nat len, m_limit = l, m_capacity = c \<rparr>))"
  by (simp add: getBytes_def checkGetPutIndex_def)

lemmas parse_eval =
  SharedByteBuffer_of_def getInt8_def getInt16_def getInt32_def getInt64_def getString_def
  char_of_byte_def char_of_def bit_Suc_0_iff getBytes_eval word_of_be_def field_present_def
  vector_resize_def vector_max_size_def

lemma length_encode_example_frame: "length (encode_frame example_frame) = 63"
  by (simp add: example_frame_def encode_frame_def encode_block_def)

lemma well_formed_example_frame: "well_formed_frame example_frame"
  by (simp add: well_formed_frame_def length_encode_example_frame) (simp add: example_frame_def)

lemma parse_frame_E3:
  "InvocationResponse_parse frame_E3 32 =
     Inr \<lparr> m_clientData = 1, m_statusCode = 0xFE, m_statusString = ''constraint'',
           m_appStatusCode = 0x80, m_appStatusString = '''', m_clusterRoundTripTime = 0,
           m_results = [] \<rparr>"
  unfolding InvocationResponse_parse_def InvocationResponse_read_def frame_E3_def
  by (simp add: parse_eval)

lemma parse_frame_E1:
  "InvocationResponse_parse frame_E1 18 =
     Inr \<lparr> m_clientData = 1, m_statusCode = 1, m_statusString = '''',
           m_appStatusCode = 0x80, m_appStatusString = '''', m_clusterRoundTripTime = 0,
           m_results = [] \<rparr>"
  unfolding InvocationResponse_parse_def InvocationResponse_read_def frame_E1_def
  by (simp add: parse_eval)

lemma be_of_word_numeral:
  "be_of_word (numeral k) w
     = ucast (drop_bit (8 * pred_numeral k) w) # be_of_word (pred_numeral k) w"
  by (simp add: numeral_eq_Suc)

lemma encode_example_frame:
  "encode_frame example_frame =
     [0,  0, 0, 0, 0, 0, 0, 0, 7,  0xE0,  0xFE,
      0, 0, 0, 10,  0x63, 0x6F, 0x6E, 0x73, 0x74, 0x72, 0x61, 0x69, 0x6E, 0x74,
      3,  0, 0, 0, 3,  0x61, 0x70, 0x70,  0, 0, 0, 5,  0, 0, 0, 3,  1, 2, 3,  0, 2,
      0, 0, 0, 4,  9, 9, 9, 9,  0, 0, 0, 5,  8, 8, 8, 8, 8]"
  by (simp add: example_frame_def encode_frame_def encode_block_def be_of_word_numeral
      byte_of_char_def)

lemma length_encode_null_string_frame: "length (encode_frame null_string_frame) = 53"
  by (simp add: null_string_frame_def example_frame_def encode_frame_def encode_block_def)

lemma not_well_formed_null_string_frame: "\<not> well_formed_frame null_string_frame"
  by (simp add: well_formed_frame_def null_string_frame_def example_frame_def)

lemma read_tables_numeral:
  "read_tables (numeral k) startLimit buffer =
     and_then (read_table startLimit buffer)
       (\<lambda>(t, buffer).
          and_then (read_tables (pred_numeral k) startLimit buffer)
            (\<lambda>(ts, buffer). Inr (t # ts, buffer)))"
  by (simp add: numeral_eq_Suc)

lemma parse_example_frame_truncated:
  "InvocationResponse_parse (encode_frame example_frame @ []) 62 = Inl IndexOutOfBounds"
  unfolding encode_example_frame InvocationResponse_parse_def InvocationResponse_read_def
  by (simp add: parse_eval skip_exception_def add_int32_def position_set_def read_table_def
      limit_set_def slice_def read_tables_numeral)

section \<open>The parsing constructor on well-formed frames\<close>

text \<open>
  C1: for every well-formed invocation-response frame the parsing constructor reads the
  fields in the wire order version, clientData, presentFields, statusCode, optional
  statusString, appStatusCode, optional appStatusString, clusterRoundTripTime, optional
  exception block, resultCount. The frame \<open>encode_frame f\<close> lays the fields out in that
  order, big-endian, with the status string present exactly when bit 5 of presentFields
  is set, the exception block (its length and that many bytes) exactly when bit 6 is set
  and the application status string exactly when bit 7 is set; whatever follows the frame
  in the array (\<open>extra\<close>) is not read. The constructor returns a response whose
  clientData, statusCode, appStatusCode and clusterRoundTripTime are the values of the
  frame, whose strings are the strings of the frame where present, and whose result does
  not depend on the bytes of the exception block.
\<close>

theorem parse_reads_fields_in_wire_order:
  assumes "well_formed_frame f"
  shows "\<exists>r. InvocationResponse_parse (encode_frame f @ extra) (int (length (encode_frame f)))
             = Inr r
         \<and> clientData r = f_clientData f
         \<and> statusCode r = f_statusCode f
         \<and> statusString r =
             (if bit (f_presentFields f) 5 then string_or_empty (f_statusString f) else '''')
         \<and> appStatusCode r = f_appStatusCode f
         \<and> appStatusString r =
             (if bit (f_presentFields f) 7 then string_or_empty (f_appStatusString f) else '''')
         \<and> clusterRoundTripTime r = f_clusterRoundTripTime f
         \<and> results r = map table_of_bytes (f_tables f)"
  using parse_encode_frame [OF assms, of extra]
  by (simp add: response_of_frame_def clientData_def statusCode_def statusString_def
      appStatusCode_def appStatusString_def clusterRoundTripTime_def results_def)

theorem parse_reads_fields_in_wire_order_witness:
  "well_formed_frame example_frame
   \<and> (\<exists>r. InvocationResponse_parse (encode_frame example_frame @ [0, 1])
              (int (length (encode_frame example_frame))) = Inr r
        \<and> clientData r = 7
        \<and> statusCode r = 0xFE
        \<and> statusString r = ''constraint''
        \<and> appStatusCode r = 3
        \<and> appStatusString r = ''app''
        \<and> clusterRoundTripTime r = 5
        \<and> results r = [table_of_bytes [9, 9, 9, 9], table_of_bytes [8, 8, 8, 8, 8]])"
  using parse_reads_fields_in_wire_order [OF well_formed_example_frame, of "[0, 1]"]
    well_formed_example_frame
  by (simp add: example_frame_def)

text \<open>
  C2: for every well-formed frame the constructor produces exactly resultCount result
  tables, table \<open>i\<close> being built from the slice of exactly the bytes that follow the
  \<open>i\<close>-th length prefix. Every run of the loop body that succeeds hands the table a
  slice of exactly \<open>tableLength\<close> bytes, taken behind the 4-byte prefix, moves the
  position behind these bytes and leaves the limit at the value it had before the loop,
  which is the limit the next prefix is read under.
\<close>

theorem parse_builds_result_tables:
  "(well_formed_frame f \<longrightarrow>
      (\<exists>r. InvocationResponse_parse (encode_frame f @ extra) (int (length (encode_frame f)))
             = Inr r
           \<and> length (results r) = nat (sint (f_resultCount f))
           \<and> (\<forall>i < length (f_tables f). results r ! i = table_of_bytes (f_tables f ! i))))
   \<and> (read_table startLimit b = Inr (Table s, b') \<longrightarrow>
      (\<exists>tableLength b1. getInt32 b = Inr (tableLength, b1)
           \<and> m_buffer s = take (nat (sint tableLength)) (drop (m_position b + 4) (m_buffer b))
           \<and> m_position s = 0
           \<and> m_limit s = nat (sint tableLength)
           \<and> m_position b' = m_position b + 4 + nat (sint tableLength)
           \<and> m_limit b' = startLimit))"
proof (intro conjI impI)
  assume wf: "well_formed_frame f"
  have "nat (sint (f_resultCount f)) = length (f_tables f)"
    using wf by (simp add: well_formed_frame_def)
  then show "\<exists>r. InvocationResponse_parse (encode_frame f @ extra)
                 (int (length (encode_frame f))) = Inr r
           \<and> length (results r) = nat (sint (f_resultCount f))
           \<and> (\<forall>i < length (f_tables f). results r ! i = table_of_bytes (f_tables f ! i))"
    using parse_encode_frame [OF wf, of extra]
    by (simp add: response_of_frame_def results_def)
next
  assume "read_table startLimit b = Inr (Table s, b')"
  from read_table_Inr [OF this]
  show "\<exists>tableLength b1. getInt32 b = Inr (tableLength, b1)
           \<and> m_buffer s = take (nat (sint tableLength)) (drop (m_position b + 4) (m_buffer b))
           \<and> m_position s = 0
           \<and> m_limit s = nat (sint tableLength)
           \<and> m_position b' = m_position b + 4 + nat (sint tableLength)
           \<and> m_limit b' = startLimit"
    by blast
qed

theorem parse_builds_result_tables_witness:
  "well_formed_frame example_frame
   \<and> (\<exists>r. InvocationResponse_parse (encode_frame example_frame @ [])
             (int (length (encode_frame example_frame))) = Inr r
         \<and> length (results r) = 2
         \<and> results r ! 0 = table_of_bytes [9, 9, 9, 9]
         \<and> results r ! 1 = table_of_bytes [8, 8, 8, 8, 8])
   \<and> read_table 17 two_tables_buffer
        = Inr (table_of_bytes [9, 9, 9, 9], two_tables_buffer\<lparr>m_position := 8\<rparr>)
   \<and> (\<exists>tableLength b1. getInt32 two_tables_buffer = Inr (tableLength, b1)
         \<and> sint tableLength = 4
         \<and> take (nat (sint tableLength)) (drop (m_position two_tables_buffer + 4)
              (m_buffer two_tables_buffer)) = [9, 9, 9, 9]
         \<and> m_limit (two_tables_buffer\<lparr>m_position := 8\<rparr>) = 17)"
proof -
  have rt: "read_table 17 two_tables_buffer
        = Inr (table_of_bytes [9, 9, 9, 9], two_tables_buffer\<lparr>m_position := 8\<rparr>)"
    by (simp add: read_table_def two_tables_buffer_def table_of_bytes_def parse_eval
        add_int32_def limit_set_def slice_def)
  have g: "getInt32 two_tables_buffer = Inr (4, two_tables_buffer\<lparr>m_position := 4\<rparr>)"
    by (simp add: two_tables_buffer_def parse_eval)
  have "length (f_tables example_frame) = 2"
    by (simp add: example_frame_def)
  then have all2: "(\<forall>i < length (f_tables example_frame). P i) = (P 0 \<and> P 1)" for P
    by (auto simp add: less_Suc_eq numeral_2_eq_2)
  show ?thesis
    using parse_builds_result_tables [of example_frame "[]" 17 two_tables_buffer
        "\<lparr> m_buffer = [9, 9, 9, 9], m_position = 0, m_limit = 4, m_capacity = 4 \<rparr>"
        "two_tables_buffer\<lparr>m_position := 8\<rparr>"]
      well_formed_example_frame rt
    unfolding all2
    by (simp add: g table_of_bytes_def) (simp add: example_frame_def two_tables_buffer_def)
qed

text \<open>
  C6: the parsing constructor runs to completion (every assertion holds, no read crosses
  the limit) only under the stated preconditions, and under them the assertions hold.
  \<^item> A well-formed frame (version 0, every present string non-null, a non-negative result
    count, every table at least 4 bytes long, all announced bytes in the buffer) is parsed
    to the response it describes.
  \<^item> A frame that holds what it announces but is not well-formed is not parsed: the
    constructor stops at \<open>assert(version == 0)\<close>, at \<open>assert(!wasNull)\<close> or at
    \<open>assert(tableLength >= 4)\<close>, or the resize to a negative count fails.
  \<^item> A well-formed frame handed over with a length shorter than the frame is not parsed.
  \<^item> Whenever the constructor returns, the array holds \<open>length\<close> bytes, the first byte
    is 0, there are fewer than \<open>2^15\<close> tables and each table has at least 4 bytes.
\<close>

theorem parse_total_only_under_preconditions:
  "(well_formed_frame f \<longrightarrow>
      InvocationResponse_parse (encode_frame f @ extra) (int (length (encode_frame f)))
        = Inr (response_of_frame f))
   \<and> (length (encode_frame g) < 2 ^ 31
        \<and> (0 \<le> sint (f_resultCount g)
             \<longrightarrow> nat (sint (f_resultCount g)) = length (f_tables g))
        \<and> \<not> well_formed_frame g \<longrightarrow>
      InvocationResponse_parse (encode_frame g @ extra) (int (length (encode_frame g)))
        = Inl (if f_version g = 0 \<and> \<not> null_string_present g \<and> sint (f_resultCount g) < 0
               then LengthError else AssertionFailed))
   \<and> (well_formed_frame f \<and> len < int (length (encode_frame f)) \<longrightarrow>
      (\<exists>e. InvocationResponse_parse (encode_frame f @ extra) len = Inl e))
   \<and> (InvocationResponse_parse data len' = Inr r \<longrightarrow>
      0 < len' \<and> nat len' \<le> length data \<and> data ! 0 = 0
      \<and> length (results r) < 2 ^ 15
      \<and> (\<forall>t \<in> set (results r). case t of Table s \<Rightarrow> 4 \<le> m_limit s))"
proof (intro conjI impI)
  assume "well_formed_frame f"
  then show "InvocationResponse_parse (encode_frame f @ extra)
      (int (length (encode_frame f))) = Inr (response_of_frame f)"
    by (rule parse_encode_frame)
next
  assume a: "length (encode_frame g) < 2 ^ 31
        \<and> (0 \<le> sint (f_resultCount g)
             \<longrightarrow> nat (sint (f_resultCount g)) = length (f_tables g))
        \<and> \<not> well_formed_frame g"
  then have n31: "length (encode_frame g) < 2 ^ 31"
    and cnt: "0 \<le> sint (f_resultCount g) \<Longrightarrow>
        nat (sint (f_resultCount g)) = length (f_tables g)"
    and nwf: "\<not> well_formed_frame g"
    by simp_all
  have bad: "f_version g \<noteq> 0 \<or> null_string_present g \<or> sint (f_resultCount g) < 0
      \<or> (\<exists>t \<in> set (f_tables g). length t < 4)"
  proof (rule ccontr)
    assume "\<not> ?thesis"
    then have "well_formed_frame g"
      using n31 cnt
      by (auto simp add: well_formed_frame_def null_string_present_def not_less)
    with nwf show False ..
  qed
  show "InvocationResponse_parse (encode_frame g @ extra) (int (length (encode_frame g)))
        = Inl (if f_version g = 0 \<and> \<not> null_string_present g \<and> sint (f_resultCount g) < 0
               then LengthError else AssertionFailed)"
    using parse_encode_frame_general [of g extra, OF n31 cnt] bad
    by auto
next
  assume "well_formed_frame f \<and> len < int (length (encode_frame f))"
  then show "\<exists>e. InvocationResponse_parse (encode_frame f @ extra) len = Inl e"
    using parse_truncated_frame [of f len extra] by simp
next
  assume p: "InvocationResponse_parse data len' = Inr r"
  from parse_Inr_header [OF p]
  show "0 < len'" and "nat len' \<le> length data" and "data ! 0 = 0"
    by simp_all
  from parse_Inr_tables [OF p]
  show "length (results r) < 2 ^ 15"
    and "\<forall>t \<in> set (results r). case t of Table s \<Rightarrow> 4 \<le> m_limit s"
    by (simp_all add: results_def)
qed

theorem parse_total_only_under_preconditions_witness:
  "well_formed_frame example_frame
   \<and> InvocationResponse_parse (encode_frame example_frame @ [])
        (int (length (encode_frame example_frame))) = Inr (response_of_frame example_frame)
   \<and> length (encode_frame null_string_frame) < 2 ^ 31
   \<and> 0 \<le> sint (f_resultCount null_string_frame)
   \<and> nat (sint (f_resultCount null_string_frame)) = length (f_tables null_string_frame)
   \<and> \<not> well_formed_frame null_string_frame
   \<and> InvocationResponse_parse (encode_frame null_string_frame @ [])
        (int (length (encode_frame null_string_frame))) = Inl AssertionFailed
   \<and> (62 :: int) < int (length (encode_frame example_frame))
   \<and> InvocationResponse_parse (encode_frame example_frame @ []) 62 = Inl IndexOutOfBounds
   \<and> (\<exists>r. InvocationResponse_parse frame_E3 32 = Inr r
         \<and> (0 :: int) < 32 \<and> nat 32 \<le> length frame_E3 \<and> frame_E3 ! 0 = 0
         \<and> length (results r) < 2 ^ 15)
   \<and> 4 \<le> m_limit \<lparr> m_buffer = [9, 9, 9, 9], m_position = 0, m_limit = 4, m_capacity = 4 \<rparr>
   \<and> 4 \<le> m_limit \<lparr> m_buffer = [8, 8, 8, 8, 8], m_position = 0, m_limit = 5,
             m_capacity = 5 \<rparr>"
proof -
  have nf: "length (encode_frame null_string_frame) < 2 ^ 31"
    "0 \<le> sint (f_resultCount null_string_frame)"
    "nat (sint (f_resultCount null_string_frame)) = length (f_tables null_string_frame)"
    "null_string_present null_string_frame"
    "f_version null_string_frame = 0"
    by (simp_all add: length_encode_null_string_frame)
       (simp_all add: null_string_frame_def example_frame_def null_string_present_def)
  have e3: "nat 32 \<le> length frame_E3" "frame_E3 ! 0 = 0"
    by (simp_all add: frame_E3_def)
  show ?thesis
    using parse_total_only_under_preconditions
      [of example_frame "[]" null_string_frame 62 frame_E3 32
         "\<lparr> m_clientData = 1, m_statusCode = 0xFE, m_statusString = ''constraint'',
            m_appStatusCode = 0x80, m_appStatusString = '''', m_clusterRoundTripTime = 0,
            m_results = [] \<rparr>"]
      well_formed_example_frame not_well_formed_null_string_frame nf e3
      parse_example_frame_truncated parse_frame_E3
    by (simp add: length_encode_example_frame results_def)
qed

text \<open>
  C10: presentFields is the byte at offset 9 of the frame, behind the version and the
  client data. Whenever the constructor returns a response, the status string of the
  response is empty if bit 5 of that byte is clear, and the application status string is
  empty if bit 7 is clear.
\<close>

theorem absent_strings_are_empty:
  assumes "InvocationResponse_parse data len = Inr r"
  shows "(\<not> bit (data ! 9) 5 \<longrightarrow> statusString r = '''')
         \<and> (\<not> bit (data ! 9) 7 \<longrightarrow> appStatusString r = '''')
         \<and> encode_frame f ! 9 = f_presentFields f"
proof -
  have "encode_frame f ! 9 = f_presentFields f"
    by (simp add: encode_frame_def nth_append nth_Cons')
  with parse_Inr_absent_strings [OF assms] show ?thesis
    by (simp add: statusString_def appStatusString_def)
qed

theorem absent_strings_are_empty_witness:
  "InvocationResponse_parse frame_E1 18 =
     Inr \<lparr> m_clientData = 1, m_statusCode = 1, m_statusString = '''',
           m_appStatusCode = 0x80, m_appStatusString = '''', m_clusterRoundTripTime = 0,
           m_results = [] \<rparr>
   \<and> \<not> bit (frame_E1 ! 9) 5
   \<and> \<not> bit (frame_E1 ! 9) 7
   \<and> statusString \<lparr> m_clientData = 1, m_statusCode = 1, m_statusString = '''',
           m_appStatusCode = 0x80, m_appStatusString = '''', m_clusterRoundTripTime = 0,
           m_results = [] \<rparr> = ''''
   \<and> appStatusString \<lparr> m_clientData = 1, m_statusCode = 1, m_statusString = '''',
           m_appStatusCode = 0x80, m_appStatusString = '''', m_clusterRoundTripTime = 0,
           m_results = [] \<rparr> = ''''"
  using absent_strings_are_empty [OF parse_frame_E1] parse_frame_E1
  by (simp add: frame_E1_def)

text \<open>
  C5: \<open>success()\<close> is true exactly when the status code is 1, and \<open>failure()\<close> is its
  negation. The response parsed from the frame of scenario E3 (status code -2, status
  string "constraint", no tables) is a failure with that status string and no results;
  the response parsed from the frame of scenario E1 (status code 1, no status string, no
  tables) is a success with an empty status string and no results.
\<close>

theorem success_and_failure:
  "success r = (sint (statusCode r) = 1)
   \<and> failure r = (\<not> success r)
   \<and> (\<exists>r3. InvocationResponse_parse frame_E3 32 = Inr r3
         \<and> sint (statusCode r3) = - 2
         \<and> failure r3 \<and> statusString r3 = ''constraint'' \<and> length (results r3) = 0)
   \<and> (\<exists>r1. InvocationResponse_parse frame_E1 18 = Inr r1
         \<and> sint (statusCode r1) = 1
         \<and> success r1 \<and> statusString r1 = '''' \<and> length (results r1) = 0)"
  by (simp add: parse_frame_E3 parse_frame_E1 success_def failure_def statusCode_def
      statusString_def results_def)

section \<open>Stream round trip\<close>

lemma read_example_stream:
  "InvocationResponse_of_istream LittleEndian example_table_in example_stream
   = Inr (\<lparr> m_clientData = 1, m_statusCode = 1, m_statusString = '''',
            m_appStatusCode = 0x80, m_appStatusString = '''', m_clusterRoundTripTime = 0,
            m_results = [] \<rparr>, [])"
  unfolding InvocationResponse_of_istream_def example_stream_def
  by (simp add: istream_read_def readString_def word_of_native_def word_of_be_def
      vector_resize_def)

text \<open>
  C9: stream serialization round-trips. The response read by
  \<open>InvocationResponse(std::istream&)\<close> from the bytes \<open>operator >>\<close> wrote for \<open>r\<close> has
  the status code, status string, application status code, application status string,
  client data and cluster round-trip time of \<open>r\<close> and as many result tables, in either
  byte order of the host. This holds for every response whose strings are shorter than
  \<open>2^31\<close> bytes (the length is written as an \<open>int32_t\<close>), whose vector of tables has a
  size a vector can have, and whose tables can each be read back, by the table's stream
  constructor, from what the table's \<open>operator >>\<close> wrote. Every response built by the
  default constructor, by the parsing constructor or by the stream constructor has
  strings shorter than \<open>2^31\<close> bytes.
\<close>

theorem stream_round_trip:
  "(length (statusString r) < 2 ^ 31 \<and> length (appStatusString r) < 2 ^ 31
      \<and> length (results r) \<le> vector_max_size
      \<and> (\<forall>t \<in> set (results r). \<forall>rest.
            \<exists>t'. table_in (table_out t @ rest) = Inr (t', rest)) \<longrightarrow>
      (\<exists>r'. InvocationResponse_of_istream order table_in
               (operator_rshift order table_out r []) = Inr (r', [])
           \<and> statusCode r' = statusCode r
           \<and> statusString r' = statusString r
           \<and> appStatusCode r' = appStatusCode r
           \<and> appStatusString r' = appStatusString r
           \<and> clientData r' = clientData r
           \<and> clusterRoundTripTime r' = clusterRoundTripTime r
           \<and> length (results r') = length (results r)))
   \<and> length (statusString InvocationResponse_default) < 2 ^ 31
   \<and> length (appStatusString InvocationResponse_default) < 2 ^ 31
   \<and> (InvocationResponse_parse data len = Inr p \<longrightarrow>
        length (statusString p) < 2 ^ 31 \<and> length (appStatusString p) < 2 ^ 31)
   \<and> (InvocationResponse_of_istream order table_in is = Inr (q, is') \<longrightarrow>
        length (statusString q) < 2 ^ 31 \<and> length (appStatusString q) < 2 ^ 31)"
proof (intro conjI impI)
  assume a: "length (statusString r) < 2 ^ 31 \<and> length (appStatusString r) < 2 ^ 31
      \<and> length (results r) \<le> vector_max_size
      \<and> (\<forall>t \<in> set (results r). \<forall>rest.
            \<exists>t'. table_in (table_out t @ rest) = Inr (t', rest))"
  then have s1: "length (m_statusString r) < 2 ^ 31"
    and s2: "length (m_appStatusString r) < 2 ^ 31"
    and sz: "length (m_results r) \<le> vector_max_size"
    and tbl: "\<forall>t \<in> set (m_results r). \<forall>rest.
        \<exists>t'. table_in (table_out t @ rest) = Inr (t', rest)"
    by (simp_all add: statusString_def appStatusString_def results_def)
  from read_write_stream [OF s1 s2 sz tbl, of order "[]"] obtain ts' where
    "InvocationResponse_of_istream order table_in (operator_rshift order table_out r [])
       = Inr (r\<lparr>m_results := ts'\<rparr>, [])"
    and "length ts' = length (m_results r)"
    by auto
  then show "\<exists>r'. InvocationResponse_of_istream order table_in
               (operator_rshift order table_out r []) = Inr (r', [])
           \<and> statusCode r' = statusCode r
           \<and> statusString r' = statusString r
           \<and> appStatusCode r' = appStatusCode r
           \<and> appStatusString r' = appStatusString r
           \<and> clientData r' = clientData r
           \<and> clusterRoundTripTime r' = clusterRoundTripTime r
           \<and> length (results r') = length (results r)"
    by (simp add: statusCode_def statusString_def appStatusCode_def appStatusString_def
        clientData_def clusterRoundTripTime_def results_def)
next
  show "length (statusString InvocationResponse_default) < 2 ^ 31"
    and "length (appStatusString InvocationResponse_default) < 2 ^ 31"
    by (simp_all add: statusString_def appStatusString_def InvocationResponse_default_def)
next
  assume "InvocationResponse_parse data len = Inr p"
  from parse_Inr_string_lengths [OF this]
  show "length (statusString p) < 2 ^ 31" and "length (appStatusString p) < 2 ^ 31"
    by (simp_all add: statusString_def appStatusString_def)
next
  assume "InvocationResponse_of_istream order table_in is = Inr (q, is')"
  from of_istream_Inr_string_lengths [OF this]
  show "length (statusString q) < 2 ^ 31" and "length (appStatusString q) < 2 ^ 31"
    by (simp_all add: statusString_def appStatusString_def)
qed

theorem stream_round_trip_witness:
  "length (statusString example_response) < 2 ^ 31
   \<and> length (appStatusString example_response) < 2 ^ 31
   \<and> length (results example_response) \<le> vector_max_size
   \<and> (\<exists>r'. InvocationResponse_of_istream LittleEndian example_table_in
              (operator_rshift LittleEndian example_table_out example_response [])
            = Inr (r', [])
         \<and> statusCode r' = 0xFE
         \<and> statusString r' = ''constraint''
         \<and> appStatusCode r' = 3
         \<and> appStatusString r' = ''app''
         \<and> clientData r' = 7
         \<and> clusterRoundTripTime r' = 5
         \<and> length (results r') = 2)
   \<and> InvocationResponse_parse frame_E3 32 =
       Inr \<lparr> m_clientData = 1, m_statusCode = 0xFE, m_statusString = ''constraint'',
             m_appStatusCode = 0x80, m_appStatusString = '''', m_clusterRoundTripTime = 0,
             m_results = [] \<rparr>
   \<and> InvocationResponse_of_istream LittleEndian example_table_in example_stream
       = Inr (\<lparr> m_clientData = 1, m_statusCode = 1, m_statusString = '''',
                m_appStatusCode = 0x80, m_appStatusString = '''', m_clusterRoundTripTime = 0,
                m_results = [] \<rparr>, [])"
proof -
  have tbl: "\<forall>t \<in> set (results example_response). \<forall>rest.
      \<exists>t'. example_table_in (example_table_out t @ rest) = Inr (t', rest)"
    by (simp add: example_response_def results_def example_table_round_trip)
  have pre: "length (statusString example_response) < 2 ^ 31"
    "length (appStatusString example_response) < 2 ^ 31"
    "length (results example_response) \<le> vector_max_size"
    by (simp_all add: example_response_def statusString_def appStatusString_def results_def
        vector_max_size_def)
  have vals: "statusCode example_response = 0xFE"
    "statusString example_response = ''constraint''"
    "appStatusCode example_response = 3"
    "appStatusString example_response = ''app''"
    "clientData example_response = 7"
    "clusterRoundTripTime example_response = 5"
    "length (results example_response) = 2"
    by (simp_all add: example_response_def statusCode_def statusString_def appStatusCode_def
        appStatusString_def clientData_def clusterRoundTripTime_def results_def)
  show ?thesis
    using stream_round_trip [of example_response example_table_in example_table_out
        LittleEndian frame_E3 32 _ example_stream _ "[]"]
      tbl pre parse_frame_E3 read_example_stream
    by (simp add: vals)
qed

section \<open>Draining the event loop\<close>
















section \<open>Status codes and the default response\<close>

text \<open>
  C4: the five status-code constants have the values SUCCESS = 1, USER_ABORT = -1,
  GRACEFUL_FAILURE = -2, UNEXPECTED_FAILURE = -3, CONNECTION_LOST = -4.
\<close>

theorem status_code_values:
  "StatusCode_value STATUS_CODE_SUCCESS = 1
   \<and> StatusCode_value STATUS_CODE_USER_ABORT = - 1
   \<and> StatusCode_value STATUS_CODE_GRACEFUL_FAILURE = - 2
   \<and> StatusCode_value STATUS_CODE_UNEXPECTED_FAILURE = - 3
   \<and> StatusCode_value STATUS_CODE_CONNECTION_LOST = - 4"
  by simp

text \<open>
  C3: a default-constructed response has status code -4 (CONNECTION_LOST), application
  status code -128, client data 0, cluster round-trip time 0, a non-empty status string,
  an empty application status string and no result tables.
\<close>

theorem default_response_fields:
  "sint (statusCode InvocationResponse_default) = - 4
   \<and> sint (statusCode InvocationResponse_default) = StatusCode_value STATUS_CODE_CONNECTION_LOST
   \<and> sint (appStatusCode InvocationResponse_default) = - 128
   \<and> clientData InvocationResponse_default = 0
   \<and> clusterRoundTripTime InvocationResponse_default = 0
   \<and> statusString InvocationResponse_default = ''Connection to the database was lost''
   \<and> statusString InvocationResponse_default \<noteq> ''''
   \<and> appStatusString InvocationResponse_default = ''''
   \<and> length (results InvocationResponse_default) = 0"
  by (simp add: InvocationResponse_default_def statusCode_def appStatusCode_def
      clientData_def clusterRoundTripTime_def statusString_def appStatusString_def
      results_def INT8_MIN_def)

section \<open>Immutability\<close>








lemmas accessor_calls_def =
  clientData_call_def statusCode_call_def success_call_def failure_call_def
  statusString_call_def appStatusCode_call_def appStatusString_call_def
  clusterRoundTripTime_call_def results_call_def




text \<open>
  The object after a call of \<open>toString\<close> is what \<open>Table::toString\<close> leaves of the result
  tables: were that function to change the table it is called on, the response would not
  be the same after the call, and \<open>results\<close> would not return the same tables after
  it.
\<close>

lemma toString_call_follows_table_toString:
  "snd (call clobbering_table_toString Call_toString example_response)
     = example_response\<lparr> m_results := [table_of_bytes [], table_of_bytes []] \<rparr>
   \<and> snd (call clobbering_table_toString Call_toString example_response) \<noteq> example_response
   \<and> fst (call clobbering_table_toString Call_results
             (snd (call clobbering_table_toString Call_toString example_response)))
       \<noteq> fst (call clobbering_table_toString Call_results example_response)"
  by (simp add: toString_call_def then_do_def accessor_calls_def read_member_def
      return_value_def toString_loop.simps call_on_result_def clobbering_table_toString_def
      example_response_def table_of_bytes_def)



end
